theory Spec2Isabelle
  imports Complex_Main "HOL-Library.Sublist" "HOL-Library.Option_ord"
begin

section \<open>JavaScript strings\<close>

text \<open>
  Strings are lists of characters. The hospital data and the queries are taken to be
  ASCII text: \<open>toLowerCase\<close> maps \<open>A\<close>..\<open>Z\<close> to \<open>a\<close>..\<open>z\<close> and leaves every other
  character alone, and the white space of \<open>trim\<close> and of the regular expression class
  \<open>\s\<close> is tab, line feed, vertical tab, form feed, carriage return and space.
\<close>

definition to_lower :: "char \<Rightarrow> char" where
  "to_lower c = (let n = (of_char c :: nat) in if 65 \<le> n \<and> n \<le> 90 then char_of (n + 32) else c)"

definition toLowerCase :: "string \<Rightarrow> string" where
  "toLowerCase s = map to_lower s"

definition is_space :: "char \<Rightarrow> bool" where
  "is_space c = ((of_char c :: nat) \<in> {9, 10, 11, 12, 13, 32})"

definition is_line_terminator :: "char \<Rightarrow> bool" where
  "is_line_terminator c = ((of_char c :: nat) \<in> {10, 13})"

definition is_word :: "char \<Rightarrow> bool" where
  \<comment> \<open>the class \<open>\w\<close>: \<open>[A-Za-z0-9_]\<close>\<close>
  "is_word c = (let n = (of_char c :: nat) in
     (48 \<le> n \<and> n \<le> 57) \<or> (65 \<le> n \<and> n \<le> 90) \<or> n = 95 \<or> (97 \<le> n \<and> n \<le> 122))"

definition trim :: "string \<Rightarrow> string" where
  "trim s = rev (dropWhile is_space (rev (dropWhile is_space s)))"

text \<open>\<open>s.includes(t)\<close>: \<open>t\<close> occurs in \<open>s\<close> as a contiguous substring.\<close>

primrec str_includes :: "string \<Rightarrow> string \<Rightarrow> bool" where
  "str_includes [] t = (t = [])"
| "str_includes (c # cs) t = (prefix t (c # cs) \<or> str_includes cs t)"

text \<open>\<open>xs.join(sep)\<close>\<close>

fun join :: "string \<Rightarrow> string list \<Rightarrow> string" where
  "join sep [] = []"
| "join sep [x] = x"
| "join sep (x # y # ys) = x @ sep @ join sep (y # ys)"

text \<open>
  \<open>s.split(re)\<close> for a regular expression \<open>re\<close> that is one character class repeated
  one or more times (\<open>/\s+/\<close>, \<open>/[\s-]+/\<close>): the pieces between the maximal runs of
  separator characters. A leading or trailing run gives an empty first or last piece,
  and the empty string gives one empty piece.
\<close>

function split_on :: "(char \<Rightarrow> bool) \<Rightarrow> string \<Rightarrow> string list" where
  "split_on sep s =
     (let piece = takeWhile (\<lambda>c. \<not> sep c) s; rest = dropWhile (\<lambda>c. \<not> sep c) s
      in if rest = [] then [piece] else piece # split_on sep (dropWhile sep rest))"
  by pat_completeness auto
termination
proof (relation "measure (\<lambda>(sep, s). length s)")
  show "wf (measure (\<lambda>(sep, s). length s))" by simp
next
  fix sep :: "char \<Rightarrow> bool" and s piece rest :: string
  assume r: "rest = dropWhile (\<lambda>c. \<not> sep c) s" and ne: "rest \<noteq> []"
  from ne obtain c cs where rest: "rest = c # cs" by (cases rest) auto
  have "dropWhile (\<lambda>c. \<not> sep c) s = c # cs" using r rest by simp
  then have "sep c" by (simp add: dropWhile_eq_Cons_conv)
  then have "length (dropWhile sep rest) \<le> length cs" using rest
    by (simp add: length_dropWhile_le)
  moreover have "length rest \<le> length s" unfolding r by (rule length_dropWhile_le)
  ultimately show "((sep, dropWhile sep rest), (sep, s)) \<in> measure (\<lambda>(sep, s). length s)"
    using rest by simp
qed

declare split_on.simps [simp del]

text \<open>\<open>[...new Set(xs)]\<close>: the distinct elements in the order of their first occurrence.\<close>

fun uniq :: "'a list \<Rightarrow> 'a list" where
  "uniq [] = []"
| "uniq (x # xs) = x # uniq (removeAll x xs)"

section \<open>Regular expressions\<close>

text \<open>
  The regular expressions of the source are sequences of a few kinds of atom: a
  character class repeated greedily (\<open>\s+\<close>, \<open>\w+\<close>, \<open>.*\<close>), an alternation of literal
  strings, an optional literal character (\<open>s?\<close>), the word boundary \<open>\b\<close> and the end
  of input \<open>$\<close>. A position in the subject is the character before it (if any) and the
  text after it. The matcher backtracks as the JavaScript one does: the alternatives
  of an atom are tried in priority order (longest repetition first, alternation left
  to right), and the first one that lets the rest of the expression match wins.
  Literals are compared ignoring case (flag \<open>i\<close>).
\<close>

datatype cclass = CSpace | CWord | CDot

fun in_class :: "cclass \<Rightarrow> char \<Rightarrow> bool" where
  "in_class CSpace c = is_space c"
| "in_class CWord c = is_word c"
| "in_class CDot c = (\<not> is_line_terminator c)"

datatype atom = Plus cclass | Star cclass | OneOf "string list" | Opt char | WordB | Eoi

type_synonym regex = "atom list"

type_synonym pos = "char option \<times> string"

definition advance :: "pos \<Rightarrow> nat \<Rightarrow> pos" where
  "advance p k = (case p of (prev, s) \<Rightarrow>
     (if k = 0 then prev else Some (s ! (k - 1)), drop k s))"

definition word_before :: "pos \<Rightarrow> bool" where
  "word_before p = (case fst p of None \<Rightarrow> False | Some c \<Rightarrow> is_word c)"

definition word_after :: "pos \<Rightarrow> bool" where
  "word_after p = (case snd p of [] \<Rightarrow> False | c # _ \<Rightarrow> is_word c)"

fun atom_ends :: "atom \<Rightarrow> pos \<Rightarrow> pos list" where
  "atom_ends (Plus cl) p =
     map (advance p) (rev [1 ..< Suc (length (takeWhile (in_class cl) (snd p)))])"
| "atom_ends (Star cl) p =
     map (advance p) (rev [0 ..< Suc (length (takeWhile (in_class cl) (snd p)))])"
| "atom_ends (OneOf ws) p =
     map (\<lambda>w. advance p (length w))
       (filter (\<lambda>w. w \<noteq> [] \<and> toLowerCase (take (length w) (snd p)) = toLowerCase w) ws)"
| "atom_ends (Opt c) p =
     (case snd p of [] \<Rightarrow> [p]
      | x # _ \<Rightarrow> if to_lower x = to_lower c then [advance p 1, p] else [p])"
| "atom_ends WordB p = (if word_before p \<noteq> word_after p then [p] else [])"
| "atom_ends Eoi p = (if snd p = [] then [p] else [])"

text \<open>The text left after the first (highest priority) match starting at a position.\<close>

fun rx_match :: "regex \<Rightarrow> pos \<Rightarrow> pos option" where
  "rx_match [] p = Some p"
| "rx_match (a # as) p =
     (case List.map_filter (rx_match as) (atom_ends a p) of [] \<Rightarrow> None | r # _ \<Rightarrow> Some r)"

text \<open>
  \<open>s.replace(re, '')\<close> with the flag \<open>g\<close>: scan from the left; a match is cut out and
  the scan goes on after it; where nothing matches (or the match is empty) one
  character is kept and the scan moves on by one.
\<close>

function replace_all :: "regex \<Rightarrow> pos \<Rightarrow> string" where
  "replace_all re p =
     (case rx_match re p of
        Some r \<Rightarrow>
          if length (snd r) < length (snd p) then replace_all re r
          else (case snd p of [] \<Rightarrow> [] | c # cs \<Rightarrow> c # replace_all re (Some c, cs))
      | None \<Rightarrow> (case snd p of [] \<Rightarrow> [] | c # cs \<Rightarrow> c # replace_all re (Some c, cs)))"
  by pat_completeness auto
termination
  by (relation "measure (\<lambda>(re, p). length (snd p))") auto

declare replace_all.simps [simp del]

text \<open>\<open>s.match(re)\<close> with the flag \<open>g\<close>: the matched substrings, left to right.\<close>

function match_all :: "regex \<Rightarrow> pos \<Rightarrow> string list" where
  "match_all re p =
     (case rx_match re p of
        Some r \<Rightarrow>
          if length (snd r) < length (snd p)
          then take (length (snd p) - length (snd r)) (snd p) # match_all re r
          else [] # (case snd p of [] \<Rightarrow> [] | c # cs \<Rightarrow> match_all re (Some c, cs))
      | None \<Rightarrow> (case snd p of [] \<Rightarrow> [] | c # cs \<Rightarrow> match_all re (Some c, cs)))"
  by pat_completeness auto
termination
  by (relation "measure (\<lambda>(re, p). length (snd p))") auto

declare match_all.simps [simp del]

definition js_replace :: "string \<Rightarrow> regex \<Rightarrow> string" where
  "js_replace s re = replace_all re (None, s)"

definition js_match :: "string \<Rightarrow> regex \<Rightarrow> string list option" where
  \<comment> \<open>\<open>null\<close> when there is no match\<close>
  "js_match s re = (case match_all re (None, s) of [] \<Rightarrow> None | ms \<Rightarrow> Some ms)"

text \<open>\<open>re.test(s)\<close>: the expression matches at some position of \<open>s\<close>.\<close>

primrec rx_search :: "regex \<Rightarrow> char option \<Rightarrow> string \<Rightarrow> bool" where
  "rx_search re prev [] = (rx_match re (prev, []) \<noteq> None)"
| "rx_search re prev (c # cs) = (rx_match re (prev, c # cs) \<noteq> None \<or> rx_search re (Some c) cs)"

definition rx_test :: "regex \<Rightarrow> string \<Rightarrow> bool" where
  "rx_test re s = rx_search re None s"

text \<open>
  The texts an atom and an expression can consume, for reasoning about what a match
  looks like: a match of an expression is a concatenation of texts of its atoms.
\<close>

definition atom_text :: "atom \<Rightarrow> string \<Rightarrow> bool" where
  "atom_text a m =
     (case a of
        Plus cl \<Rightarrow> m \<noteq> [] \<and> list_all (in_class cl) m
      | Star cl \<Rightarrow> list_all (in_class cl) m
      | OneOf ws \<Rightarrow> list_ex (\<lambda>w. w \<noteq> [] \<and> toLowerCase m = toLowerCase w) ws
      | Opt c \<Rightarrow> m = [] \<or> (length m = 1 \<and> to_lower (hd m) = to_lower c)
      | WordB \<Rightarrow> m = []
      | Eoi \<Rightarrow> m = [])"

primrec rx_text :: "regex \<Rightarrow> string \<Rightarrow> bool" where
  "rx_text [] m = (m = [])"
| "rx_text (a # as) m = (\<exists>k \<le> length m. atom_text a (take k m) \<and> rx_text as (drop k m))"

section \<open>Name decomposition\<close>

definition gazetteer :: "string list" where
  "gazetteer = [''sarjapur'', ''jayanagar'', ''bannerghatta'', ''whitefield'', ''koramangala'',
     ''indiranagar'', ''malleshwaram'', ''rajajinagar'', ''hebbal'', ''marathahalli'',
     ''electronic city'', ''silk board'', ''btm'', ''hsr'', ''jp nagar'', ''mg road'',
     ''brigade road'', ''commercial street'']"

definition roadwords :: "string list" where
  "roadwords = [''road'', ''street'', ''cross'', ''layout'', ''nagar'', ''pura'']"

definition locationPatterns :: "regex list" where
  "locationPatterns =
     [[WordB, OneOf gazetteer, WordB],
      [WordB, Plus CWord, Plus CSpace, OneOf roadwords, WordB],
      [WordB, OneOf [''old'', ''new''], Plus CSpace, Plus CWord, WordB]]"

definition extractLocationTerms :: "string \<Rightarrow> string list" where
  "extractLocationTerms hospitalName =
     (let name = toLowerCase hospitalName;
          locationTerms = fold (\<lambda>pattern acc.
            case js_match name pattern of None \<Rightarrow> acc | Some matches \<Rightarrow> acc @ map trim matches)
            locationPatterns []
      in uniq locationTerms)"

text \<open>The separators of \<open>/[\s-]+/\<close>, at which a location term is split into parts.\<close>

definition is_sep :: "char \<Rightarrow> bool" where
  "is_sep c = (is_space c \<or> c = CHR ''-'')"

text \<open>
  A location term on which the test \<open>termLower.length > 4\<close> of the scoring decides
  nothing: it is longer than 4 characters, or it has no separator and so is its own
  only part.
\<close>

definition ok_term :: "string \<Rightarrow> bool" where
  "ok_term t = (length t > 4 \<or> list_all (\<lambda>c. \<not> is_sep c) t)"

definition strip_locality :: regex where
  "strip_locality = [Plus CSpace, OneOf gazetteer, Star CDot, Eoi]"

definition strip_road :: regex where
  "strip_road = [Plus CSpace, Plus CWord, Plus CSpace, OneOf roadwords, Star CDot, Eoi]"

definition strip_suffix :: regex where
  "strip_suffix = [Plus CSpace, OneOf [''hospital'', ''medical center'', ''clinic''], Opt CHR ''s'', Eoi]"

definition extractMainHospitalName :: "string \<Rightarrow> string" where
  "extractMainHospitalName hospitalName =
     (let mainName = toLowerCase hospitalName;
          mainName = js_replace mainName strip_locality;
          mainName = js_replace mainName strip_road;
          mainName = js_replace mainName strip_suffix
      in trim mainName)"

section \<open>Data model\<close>

text \<open>
  The payload of an indexed point: every field is a string that may be missing
  (\<open>None\<close> is JavaScript's \<open>undefined\<close>). A hit of the vector index carries an
  identifier, the index's similarity score and the payload, which may be missing too.
\<close>

record payload =
  p_name :: "string option"
  p_address :: "string option"
  p_city :: "string option"
  p_unique_key :: "string option"

record hit =
  hit_id :: string
  score :: "rat option"
  payload :: "payload option"

datatype error = Error string | TypeError string

text \<open>\<open>payload?.field\<close>\<close>

definition field :: "(payload \<Rightarrow> string option) \<Rightarrow> payload option \<Rightarrow> string option" where
  "field f p = (case p of None \<Rightarrow> None | Some q \<Rightarrow> f q)"

text \<open>\<open>x || d\<close> for a string or \<open>undefined\<close>: the empty string is falsy.\<close>

definition or_else :: "string option \<Rightarrow> string \<Rightarrow> string" where
  "or_else x d = (case x of None \<Rightarrow> d | Some s \<Rightarrow> if s = [] then d else s)"

definition truthy :: "string option \<Rightarrow> bool" where
  "truthy x = (case x of None \<Rightarrow> False | Some s \<Rightarrow> s \<noteq> [])"

section \<open>Similarity scoring\<close>

text \<open>Scores are JavaScript numbers; they are modelled as exact rationals.\<close>

definition words_match :: "string \<Rightarrow> string \<Rightarrow> bool" where
  "words_match searchWord hospitalWord =
     (str_includes hospitalWord searchWord \<or> str_includes searchWord hospitalWord)"

definition calculateNameSimilarity :: "string \<Rightarrow> string \<Rightarrow> rat" where
  "calculateNameSimilarity searchName hospitalName =
     (let search = trim (toLowerCase searchName);
          hospital = trim (toLowerCase hospitalName)
      in if search = hospital then 1
         else if str_includes hospital search \<or> str_includes search hospital then 9 / 10
         else
           let searchWords = split_on is_space search;
               hospitalWords = split_on is_space hospital;
               matchedWords = fold (\<lambda>searchWord n.
                   if list_ex (words_match searchWord) hospitalWords then n + 1 else n)
                 searchWords (0 :: nat);
               wordMatchScore =
                 of_nat matchedWords / of_nat (max (length searchWords) (length hospitalWords));
               keyTermBonus =
                 (if list_ex (\<lambda>word. list_ex (\<lambda>hWord.
                       str_includes hWord word \<and> length word \<ge> 4) hospitalWords) searchWords
                  then 1 / 5 else 0)
           in min 1 (wordMatchScore + keyTermBonus))"

definition stopwords :: "string list" where
  "stopwords = [''hospital'', ''medical'', ''center'', ''clinic'', ''the'', ''and'', ''of'',
     ''in'', ''at'', ''on'']"

definition calculateAddressSimilarity :: "string \<Rightarrow> string \<Rightarrow> rat" where
  "calculateAddressSimilarity query address =
     (let queryLower = toLowerCase query;
          addressLower = toLowerCase address;
          queryTerms = filter (\<lambda>term. length term \<ge> 3 \<and> term \<notin> set stopwords)
            (split_on is_space queryLower);
          matchCount = fold (\<lambda>term n. if str_includes addressLower term then n + 1 else n)
            queryTerms (0 :: nat)
      in if length queryTerms > 0 then of_nat matchCount / of_nat (length queryTerms) else 0)"

record match_details =
  md_mainName :: string
  md_locationTerms :: "string list"
  md_hospitalName :: string
  md_hospitalAddress :: string

record scoring =
  nameScore :: rat
  locationScore :: rat
  addressScore :: rat
  overallNameScore :: rat
  totalScore :: rat
  matchDetails :: match_details

text \<open>
  The inner loop over the parts of a location term: the first part of length at
  least 3 found in the address or the name adds 0.5 and ends the loop.
\<close>

primrec part_credit :: "string \<Rightarrow> string \<Rightarrow> string list \<Rightarrow> rat" where
  "part_credit addressLower nameLower [] = 0"
| "part_credit addressLower nameLower (part # termParts) =
     (if length part \<ge> 3 \<and> (str_includes addressLower part \<or> str_includes nameLower part)
      then 1 / 2 else part_credit addressLower nameLower termParts)"

definition term_credit :: "string \<Rightarrow> string \<Rightarrow> string \<Rightarrow> rat" where
  "term_credit addressLower nameLower term =
     (let termLower = toLowerCase term
      in if str_includes addressLower termLower \<or> str_includes nameLower termLower then 1
         else if length termLower > 4
         then part_credit addressLower nameLower
                (split_on (\<lambda>c. is_space c \<or> c = CHR ''-'') termLower)
         else 0)"

definition calculateEnhancedSimilarity ::
  "string \<Rightarrow> string \<Rightarrow> string list \<Rightarrow> payload option \<Rightarrow> scoring" where
  "calculateEnhancedSimilarity originalQuery mainName locationTerms pl =
     (let hospitalName = or_else (field p_name pl) [];
          hospitalAddress = or_else (field p_address pl) [];
          nameScore = calculateNameSimilarity mainName hospitalName * (2 / 5);
          locationScore =
            (if length locationTerms > 0
             then
               let addressLower = toLowerCase hospitalAddress;
                   nameLower = toLowerCase hospitalName;
                   matchedTerms = fold (\<lambda>term m. m + term_credit addressLower nameLower term)
                     locationTerms 0
               in min 1 (matchedTerms / of_nat (length locationTerms)) * (35 / 100)
             else 0);
          addressScore = calculateAddressSimilarity originalQuery hospitalAddress * (15 / 100);
          overallNameScore = calculateNameSimilarity originalQuery hospitalName * (1 / 10);
          totalScore = nameScore + locationScore + addressScore + overallNameScore
      in \<lparr> nameScore = nameScore, locationScore = locationScore, addressScore = addressScore,
           overallNameScore = overallNameScore, totalScore = totalScore,
           matchDetails = \<lparr> md_mainName = mainName, md_locationTerms = locationTerms,
             md_hospitalName = hospitalName, md_hospitalAddress = hospitalAddress \<rparr> \<rparr>)"

section \<open>City filter\<close>

text \<open>
  \<open>cityMappings\<close> is an object literal, read with \<open>cityMappings[cityLower] || []\<close>. The
  lookup finds the six keys of the literal; for a name that is not among them it
  goes on to \<open>Object.prototype\<close>, whose properties are functions or objects: truthy
  values without a method \<open>some\<close>, on which \<open>variations.some(...)\<close> throws a TypeError.
\<close>

definition cityMappings :: "(string \<times> string list) list" where
  "cityMappings =
     [(''bangalore'', [''bengaluru'', ''banglore'']),
      (''bengaluru'', [''bangalore'', ''banglore'']),
      (''mumbai'', [''bombay'']),
      (''bombay'', [''mumbai'']),
      (''delhi'', [''new delhi'']),
      (''new delhi'', [''delhi''])]"

definition object_prototype_props :: "string list" where
  "object_prototype_props =
     [''constructor'', ''__defineGetter__'', ''__defineSetter__'', ''hasOwnProperty'',
      ''__lookupGetter__'', ''__lookupSetter__'', ''isPrototypeOf'', ''propertyIsEnumerable'',
      ''toString'', ''valueOf'', ''__proto__'', ''toLocaleString'']"

definition city_keep :: "string \<Rightarrow> payload option \<Rightarrow> error + bool" where
  "city_keep cityLower pl =
     (let resultCity = toLowerCase (or_else (field p_city pl) []);
          resultAddress = toLowerCase (or_else (field p_address pl) [])
      in if resultCity = cityLower then Inr True
         else if str_includes resultCity cityLower \<or> str_includes resultAddress cityLower
         then Inr True
         else if str_includes cityLower resultCity \<and> length resultCity \<ge> 3 then Inr True
         else (case map_of cityMappings cityLower of
                 Some variations \<Rightarrow>
                   Inr (list_ex (\<lambda>variation. str_includes resultCity variation \<or>
                                  str_includes resultAddress variation) variations)
               | None \<Rightarrow>
                   if cityLower \<in> set object_prototype_props
                   then Inl (TypeError ''variations.some is not a function'')
                   else Inr False))"

text \<open>\<open>results.filter(callback)\<close> with a callback that may throw.\<close>

primrec filter_e :: "('a \<Rightarrow> error + bool) \<Rightarrow> 'a list \<Rightarrow> error + 'a list" where
  "filter_e f [] = Inr []"
| "filter_e f (x # xs) =
     (case f x of
        Inl e \<Rightarrow> Inl e
      | Inr b \<Rightarrow> (case filter_e f xs of
                   Inl e \<Rightarrow> Inl e
                 | Inr ys \<Rightarrow> Inr (if b then x # ys else ys)))"

definition filterByCity :: "'a hit_scheme list \<Rightarrow> string option \<Rightarrow> error + 'a hit_scheme list" where
  "filterByCity results cityArg =
     (if \<not> truthy cityArg then Inr results
      else let cityLower = toLowerCase (the cityArg)
           in filter_e (\<lambda>h. city_keep cityLower (payload h)) results)"

section \<open>The embedding service and the vector index\<close>

text \<open>
  Both are reached by \<open>fetch\<close>. A call either fails (the network, or a body that is
  not JSON), or answers with a status that is not ok (the status and the text of the
  body), or answers with a JSON body. What the services answer is a parameter of the
  model.
\<close>

datatype 'a http = FetchFailed string | NotOk string string | Ok 'a

datatype condition = MatchValue string string | MatchText string string

datatype qfilter = Should "condition list" | Must "condition list"

record search_body =
  q_collection :: string
  q_vector :: "rat list"
  q_limit :: nat
  q_score_threshold :: "rat option"
  q_filter :: "qfilter option"

record response =
  result :: "hit list option"

record env =
  embed_api :: "string \<Rightarrow> rat list option http"
  qdrant_api :: "search_body \<Rightarrow> response http"

definition COLLECTION :: string where
  "COLLECTION = ''hospitals''"

definition embedText :: "env \<Rightarrow> string \<Rightarrow> error + rat list" where
  "embedText env text =
     (case embed_api env text of
        FetchFailed m \<Rightarrow> Inl (Error m)
      | NotOk status txt \<Rightarrow> Inl (Error (''embedText error: '' @ status @ '' - '' @ txt))
      | Ok values \<Rightarrow> Inr (case values of None \<Rightarrow> [] | Some v \<Rightarrow> v))"

definition vectorSearch :: "env \<Rightarrow> string \<Rightarrow> rat list \<Rightarrow> nat \<Rightarrow> qfilter option \<Rightarrow> error + response" where
  "vectorSearch env collectionName vec topK flt =
     (let body = \<lparr> q_collection = collectionName, q_vector = vec, q_limit = topK,
                   q_score_threshold = Some (3 / 10), q_filter = flt \<rparr>
      in case qdrant_api env body of
           FetchFailed m \<Rightarrow> Inl (Error m)
         | NotOk status txt \<Rightarrow> Inl (Error (''Qdrant search failed: '' @ txt))
         | Ok results \<Rightarrow> Inr results)"

definition fuzzyMatchHospital :: "env \<Rightarrow> string \<Rightarrow> string \<Rightarrow> error + response" where
  "fuzzyMatchHospital env collectionName query =
     (let body = \<lparr> q_collection = collectionName, q_vector = replicate 768 0, q_limit = 20,
                   q_score_threshold = None,
                   q_filter = Some (Should [MatchText ''name'' query, MatchText ''address'' query,
                                            MatchText ''city'' query]) \<rparr>
      in case qdrant_api env body of
           FetchFailed m \<Rightarrow> Inl (Error m)
         | NotOk status txt \<Rightarrow> Inl (Error (''Qdrant fuzzy match failed: '' @ txt))
         | Ok results \<Rightarrow> Inr results)"

text \<open>A template literal prints \<open>undefined\<close> for a missing value.\<close>

definition show_field :: "string option \<Rightarrow> string" where
  "show_field x = (case x of None \<Rightarrow> ''undefined'' | Some s \<Rightarrow> s)"

definition triple_key :: "payload option \<Rightarrow> string" where
  "triple_key pl = show_field (field p_name pl) @ ''|'' @ show_field (field p_city pl) @ ''|'' @
     show_field (field p_address pl)"

text \<open>
  The loop \<open>if (!seen.has(key)) { seen.add(key); out.push(mk(hit)); }\<close> over a list of
  hits; the state is the set \<open>seen\<close> and the list built so far.
\<close>

definition push_new :: "('a \<Rightarrow> string) \<Rightarrow> ('a \<Rightarrow> 'b) \<Rightarrow> 'a \<Rightarrow> string set \<times> 'b list \<Rightarrow> string set \<times> 'b list" where
  "push_new key mk h st =
     (if key h \<notin> fst st then (insert (key h) (fst st), snd st @ [mk h]) else st)"

definition uniqueKey :: "hit \<Rightarrow> string" where
  "uniqueKey r =
     (if truthy (field p_unique_key (payload r)) then the (field p_unique_key (payload r))
      else triple_key (payload r))"

definition hit_city_lower :: "'a hit_scheme \<Rightarrow> string" where
  "hit_city_lower r = toLowerCase (or_else (field p_city (payload r)) [])"

definition hit_address_lower :: "'a hit_scheme \<Rightarrow> string" where
  "hit_address_lower r = toLowerCase (or_else (field p_address (payload r)) [])"

definition hybridSearch :: "env \<Rightarrow> string \<Rightarrow> rat list \<Rightarrow> nat \<Rightarrow> string option \<Rightarrow> error + response" where
  "hybridSearch env collectionName queryVector topK cityFilter =
     (let body = \<lparr> q_collection = collectionName, q_vector = queryVector, q_limit = topK * 2,
                   q_score_threshold = Some (1 / 10),
                   q_filter =
                     (if truthy cityFilter
                      then Some (Should [MatchValue ''city_exact'' (the cityFilter),
                                         MatchText ''city'' (the cityFilter),
                                         MatchText ''address'' (the cityFilter)])
                      else None) \<rparr>
      in case qdrant_api env body of
           FetchFailed m \<Rightarrow> Inl (Error m)
         | NotOk status txt \<Rightarrow> Inl (Error (''Qdrant hybridSearch failed: '' @ txt))
         | Ok results \<Rightarrow>
             (case result results of
                None \<Rightarrow> Inr results
              | Some hits \<Rightarrow>
                  let uniqueResults = snd (fold (push_new uniqueKey (\<lambda>r. r)) hits ({}, []))
                  in if truthy cityFilter
                     then
                       let cityLower = toLowerCase (the cityFilter);
                           exactMatches = filter (\<lambda>r. hit_city_lower r = cityLower) uniqueResults;
                           partialMatches = filter (\<lambda>r. hit_city_lower r \<noteq> cityLower \<and>
                               (str_includes (hit_city_lower r) cityLower \<or>
                                str_includes (hit_address_lower r) cityLower)) uniqueResults
                       in Inr (results\<lparr> result := Some (take topK (exactMatches @ partialMatches)) \<rparr>)
                     else Inr (results\<lparr> result := Some (take topK uniqueResults) \<rparr>)))"

section \<open>The search path\<close>

record item =
  i_name :: string
  i_address :: string
  i_city :: string
  i_score :: "rat option"

definition to_item :: "hit \<Rightarrow> item" where
  "to_item h =
     \<lparr> i_name = or_else (map_option trim (field p_name (payload h))) ''Unknown'',
       i_address = or_else (map_option trim (field p_address (payload h))) ''N/A'',
       i_city = or_else (map_option trim (field p_city (payload h))) ''N/A'',
       i_score = score h \<rparr>"

text \<open>
  \<open>results?.result ?? results\<close> is the response object itself when it has no
  \<open>result\<close>; an object has no method \<open>map\<close>, so the call throws a TypeError.
\<close>

definition searchHospitals :: "env \<Rightarrow> string option \<Rightarrow> nat \<Rightarrow> error + item list" where
  "searchHospitals env cityArg limit =
     (case (if truthy cityArg
            then (case embedText env (''hospitals in '' @ the cityArg) of
                    Inl e \<Rightarrow> Inl e
                  | Inr vec \<Rightarrow> hybridSearch env COLLECTION vec limit cityArg)
            else (case embedText env ''hospitals'' of
                    Inl e \<Rightarrow> Inl e
                  | Inr vec \<Rightarrow> vectorSearch env COLLECTION vec limit None)) of
        Inl e \<Rightarrow> Inl e
      | Inr results \<Rightarrow>
          (case result results of
             None \<Rightarrow> Inl (TypeError ''(hits || []).map is not a function'')
           | Some hits \<Rightarrow> Inr (filter (\<lambda>it. i_name it \<noteq> ''Unknown'') (map to_item hits))))"

text \<open>
  A list of hits is ranked when it is in descending order of score, as the vector
  index answers. A hit is named when its payload has a name that, trimmed, is neither empty nor the
  placeholder \<open>Unknown\<close>.
\<close>

definition ranked :: "hit list \<Rightarrow> bool" where
  "ranked hits = sorted_wrt (\<lambda>a b. score b \<le> score a) hits"

definition named :: "hit \<Rightarrow> bool" where
  "named h = (\<exists>n. field p_name (payload h) = Some n \<and> trim n \<noteq> [] \<and> trim n \<noteq> ''Unknown'')"

section \<open>Hospital confirmation\<close>

record candidate = hit +
  source :: string
  searchQuery :: "string option"

text \<open>
  A scored result is \<open>{...hit, ...scoring, totalSimilarity}\<close>; the fields of the
  scoring are kept together in the field \<open>scores\<close>.
\<close>

record scored = candidate +
  scores :: scoring
  totalSimilarity :: rat

definition candidate_key :: "'a hit_scheme \<Rightarrow> string" where
  "candidate_key h = triple_key (payload h)"

definition semantic_candidate :: "string \<Rightarrow> hit \<Rightarrow> candidate" where
  "semantic_candidate query h = hit.extend h
     (candidate.fields ''semantic'' (Some query))"

definition fuzzy_candidate :: "hit \<Rightarrow> candidate" where
  "fuzzy_candidate h = hit.extend h (candidate.fields ''fuzzy'' None)"

text \<open>One round of the loop over the query variants, with its \<open>try\<close>/\<open>catch\<close>.\<close>

definition semantic_round ::
  "env \<Rightarrow> string option \<Rightarrow> string \<Rightarrow> string set \<times> candidate list \<Rightarrow> string set \<times> candidate list" where
  "semantic_round env cityArg query st =
     (case (case embedText env query of
              Inl e \<Rightarrow> Inl e
            | Inr vec \<Rightarrow> hybridSearch env COLLECTION vec 15 cityArg) of
        Inl e \<Rightarrow> st
      | Inr semanticResults \<Rightarrow>
          (case result semanticResults of
             None \<Rightarrow> st
           | Some hits \<Rightarrow> fold (push_new candidate_key (semantic_candidate query)) hits st))"

definition fuzzy_round :: "env \<Rightarrow> string \<Rightarrow> string set \<times> candidate list \<Rightarrow> string set \<times> candidate list" where
  "fuzzy_round env hospitalName st =
     (case fuzzyMatchHospital env COLLECTION hospitalName of
        Inl e \<Rightarrow> st
      | Inr fuzzyResults \<Rightarrow>
          (case result fuzzyResults of
             None \<Rightarrow> st
           | Some hits \<Rightarrow> fold (push_new candidate_key fuzzy_candidate) hits st))"

definition searchQueries :: "string \<Rightarrow> string option \<Rightarrow> string list" where
  "searchQueries hospitalName cityArg =
     [hospitalName,
      extractMainHospitalName hospitalName @ '' '' @ join '' '' (extractLocationTerms hospitalName),
      if truthy cityArg then hospitalName @ '' '' @ the cityArg else hospitalName]"

text \<open>The merged candidates \<open>allResults\<close> after the semantic and the fuzzy retrieval.\<close>

definition allResults :: "env \<Rightarrow> string \<Rightarrow> string option \<Rightarrow> candidate list" where
  "allResults env hospitalName cityArg =
     snd (fuzzy_round env hospitalName
            (fold (semantic_round env cityArg) (searchQueries hospitalName cityArg) ({}, [])))"

definition score_candidate :: "string \<Rightarrow> candidate \<Rightarrow> scored" where
  "score_candidate hospitalName h =
     (let scoring = calculateEnhancedSimilarity hospitalName (extractMainHospitalName hospitalName)
                      (extractLocationTerms hospitalName) (payload h)
      in candidate.extend h (scored.fields scoring (totalScore scoring)))"

text \<open>
  The body of the outer \<open>try\<close>. \<open>sort\<close> with the comparator
  \<open>b.totalSimilarity - a.totalSimilarity\<close> is a stable sort by descending score.
\<close>

definition confirmHospital_try :: "env \<Rightarrow> string \<Rightarrow> string option \<Rightarrow> error + scored list" where
  "confirmHospital_try env hospitalName cityArg =
     (case filterByCity (allResults env hospitalName cityArg) cityArg of
        Inl e \<Rightarrow> Inl e
      | Inr cityFiltered \<Rightarrow>
          let scoredResults = sort_key (\<lambda>h. - totalSimilarity h)
                (map (score_candidate hospitalName) cityFiltered);
              goodMatches = filter (\<lambda>h. totalSimilarity h \<ge> 1 / 4) scoredResults
          in Inr (take 3 goodMatches))"

definition confirmHospital :: "env \<Rightarrow> string \<Rightarrow> string option \<Rightarrow> error + scored list" where
  "confirmHospital env hospitalName cityArg =
     (case confirmHospital_try env hospitalName cityArg of
        Inl e \<Rightarrow> Inr []
      | Inr matches \<Rightarrow> Inr matches)"

text \<open>The chat routes call \<open>confirmHospital(hospitalName, intent.city || "")\<close>.\<close>

definition route_city :: "string option \<Rightarrow> string option" where
  "route_city intent_city = Some (or_else intent_city [])"

section \<open>What the retrieval delivers\<close>

text \<open>
  The hits of one source as the merge loop sees them: the hits of a successful call,
  none for a call that throws or answers without a \<open>result\<close>. \<open>incoming\<close> lists them
  in the order of the loop (three query variants, then the fuzzy match), tagged as
  the loop tags them, and \<open>first_occurrences\<close> keeps of a list the elements whose key
  was not seen before.
\<close>

primrec first_occurrences :: "('a \<Rightarrow> string) \<Rightarrow> string set \<Rightarrow> 'a list \<Rightarrow> 'a list" where
  "first_occurrences key seen [] = []"
| "first_occurrences key seen (x # xs) =
     (if key x \<in> seen then first_occurrences key seen xs
      else x # first_occurrences key (insert (key x) seen) xs)"

definition semantic_hits :: "env \<Rightarrow> string option \<Rightarrow> string \<Rightarrow> hit list" where
  "semantic_hits env cityArg query =
     (case embedText env query of
        Inl e \<Rightarrow> []
      | Inr vec \<Rightarrow>
          (case hybridSearch env COLLECTION vec 15 cityArg of
             Inl e \<Rightarrow> []
           | Inr semanticResults \<Rightarrow> (case result semanticResults of None \<Rightarrow> [] | Some hits \<Rightarrow> hits)))"

definition fuzzy_hits :: "env \<Rightarrow> string \<Rightarrow> hit list" where
  "fuzzy_hits env hospitalName =
     (case fuzzyMatchHospital env COLLECTION hospitalName of
        Inl e \<Rightarrow> []
      | Inr fuzzyResults \<Rightarrow> (case result fuzzyResults of None \<Rightarrow> [] | Some hits \<Rightarrow> hits))"

definition incoming :: "env \<Rightarrow> string \<Rightarrow> string option \<Rightarrow> candidate list" where
  "incoming env hospitalName cityArg =
     concat (map (\<lambda>query. map (semantic_candidate query) (semantic_hits env cityArg query))
               (searchQueries hospitalName cityArg)) @
     map fuzzy_candidate (fuzzy_hits env hospitalName)"

definition payload_triple :: "'a hit_scheme \<Rightarrow> string option \<times> string option \<times> string option" where
  "payload_triple h =
     (field p_name (payload h), field p_city (payload h), field p_address (payload h))"


section \<open>The wording of the specification\<close>

text \<open>
  Two definitions that follow the words of the specification rather than the code,
  to compare the two. The name score as specified: the token overlap plus 0.2 when
  some query token of length at least 4 has a containment match with a candidate
  token, a pair of tokens matching when either contains the other.
\<close>

definition claimed_nameSimilarity :: "string \<Rightarrow> string \<Rightarrow> rat" where
  "claimed_nameSimilarity query candidate =
     (let queryTokens = split_on is_space (trim (toLowerCase query));
          candidateTokens = split_on is_space (trim (toLowerCase candidate));
          matchedTokens = length (filter (\<lambda>q. list_ex (words_match q) candidateTokens) queryTokens);
          overlap = of_nat matchedTokens / of_nat (max (length queryTokens) (length candidateTokens));
          bonus = (if list_ex (\<lambda>q. length q \<ge> 4 \<and> list_ex (words_match q) candidateTokens) queryTokens
                   then 1 / 5 else 0)
      in max 0 (min 1 (overlap + bonus)))"

text \<open>
  The location score as specified: full credit for a term found in the address or
  the name, half credit for any other term with a part (split at runs of white space
  and hyphens) of length at least 3 found there; the credits summed, divided by the
  number of terms and clamped to 1; 0 without terms.
\<close>

definition claimed_locationScore :: "string list \<Rightarrow> payload option \<Rightarrow> rat" where
  "claimed_locationScore locationTerms pl =
     (let address = toLowerCase (or_else (field p_address pl) []);
          name = toLowerCase (or_else (field p_name pl) []);
          found = (\<lambda>t. str_includes address t \<or> str_includes name t);
          credit = (\<lambda>term.
            if found (toLowerCase term) then 1
            else if list_ex (\<lambda>part. length part \<ge> 3 \<and> found part)
                      (split_on (\<lambda>c. is_space c \<or> c = CHR ''-'') (toLowerCase term))
            then 1 / 2 else 0)
      in if locationTerms = [] then 0
         else min 1 (sum_list (map credit locationTerms) / of_nat (length locationTerms)))"

section \<open>Example data\<close>

definition hit_in :: "string \<Rightarrow> hit" where
  "hit_in c = \<lparr> hit_id = ''1'', score = Some (1 / 2),
     payload = Some \<lparr> p_name = Some ''Apollo'', p_address = Some ''MG Road'', p_city = Some c,
                       p_unique_key = None \<rparr> \<rparr>"

definition example_hit :: "string \<Rightarrow> string \<Rightarrow> string \<Rightarrow> rat \<Rightarrow> hit" where
  "example_hit n c a s = \<lparr> hit_id = n, score = Some s,
     payload = Some \<lparr> p_name = Some n, p_address = Some a, p_city = Some c,
                       p_unique_key = None \<rparr> \<rparr>"

definition example_env :: env where
  "example_env =
     \<lparr> embed_api = (\<lambda>q. if q = ''Apollo'' then Ok (Some [1]) else FetchFailed ''timeout''),
       qdrant_api = (\<lambda>b.
         if q_limit b = 20
         then Ok \<lparr> result = Some [example_hit ''Apollo'' ''Delhi'' ''MG Road'' 0,
                                   example_hit ''Fortis'' ''Pune'' ''FC Road'' 0] \<rparr>
         else Ok \<lparr> result = Some [example_hit ''Apollo Clinic'' ''Mumbai'' ''SV Road'' (9 / 10),
                                   example_hit ''Apollo'' ''Delhi'' ''MG Road'' (8 / 10),
                                   example_hit ''Apollo Clinic'' ''Mumbai'' ''SV Road'' (9 / 10)] \<rparr>) \<rparr>"


definition mumbai_hits :: "hit list" where
  "mumbai_hits =
     [example_hit ''Lilavati'' ''Navi Mumbai'' ''Vashi'' (9 / 10),
      example_hit ''Breach Candy'' ''Mumbai'' ''Warden Road'' (8 / 10),
      example_hit ''Ruby Hall'' ''Pune'' ''Sassoon Road'' (7 / 10)]"

definition mumbai_env :: env where
  "mumbai_env =
     \<lparr> embed_api = (\<lambda>q. Ok (Some [1])),
       qdrant_api = (\<lambda>b. Ok \<lparr> result = Some mumbai_hits \<rparr>) \<rparr>"

definition five_mumbai_hits :: "hit list" where
  "five_mumbai_hits =
     [example_hit ''A'' ''Mumbai'' ''a'' (9 / 10),
      example_hit ''B'' ''Mumbai'' ''b'' (8 / 10),
      example_hit ''C'' ''Mumbai'' ''c'' (7 / 10),
      example_hit ''D'' ''Mumbai'' ''d'' (6 / 10),
      example_hit ''E'' ''Mumbai'' ''e'' (5 / 10)]"

definition five_mumbai_env :: env where
  "five_mumbai_env =
     \<lparr> embed_api = (\<lambda>q. Ok (Some [1])),
       qdrant_api = (\<lambda>b. Ok \<lparr> result = Some five_mumbai_hits \<rparr>) \<rparr>"

section \<open>Properties of the similarity scoring\<close>

lemma fold_count: "fold (\<lambda>x n. if P x then n + 1 else n) xs (k::nat) = k + length (filter P xs)"
  by (induction xs arbitrary: k) auto

lemma fold_add: "fold (\<lambda>x m. m + f x) xs (a::rat) = a + sum_list (map f xs)"
  by (induction xs arbitrary: a) (auto simp: algebra_simps)

lemma split_on_nonempty: "split_on sep s \<noteq> []"
  by (subst split_on.simps) (simp add: Let_def)

text \<open>
  The divisions of the scoring never divide by zero: \<open>split\<close> returns at least one
  piece, and the other two quotients are guarded by a test of the length.
\<close>

lemma name_tokens_positive:
  "0 < max (length (split_on is_space a)) (length (split_on is_space b))"
  using split_on_nonempty[of is_space a] by (cases "split_on is_space a") auto

lemma nameSimilarity_bounds: "0 \<le> calculateNameSimilarity a b \<and> calculateNameSimilarity a b \<le> 1"
  by (simp add: calculateNameSimilarity_def Let_def fold_count)

lemma addressSimilarity_bounds: "0 \<le> calculateAddressSimilarity a b \<and> calculateAddressSimilarity a b \<le> 1"
proof -
  have "of_nat (length (filter P xs)) / (of_nat (length xs) :: rat) \<le> 1" if "xs \<noteq> []" for P and xs :: "string list"
    using that by (simp add: divide_le_eq_1)
  then show ?thesis
    by (simp add: calculateAddressSimilarity_def Let_def fold_count del: filter_filter)
qed

lemma part_credit_eq: "part_credit a n parts =
   (if \<exists>part \<in> set parts. length part \<ge> 3 \<and> (str_includes a part \<or> str_includes n part) then 1 / 2 else 0)"
  by (induction parts) auto

lemma term_credit_bounds: "0 \<le> term_credit a n t \<and> term_credit a n t \<le> 1"
  by (simp add: term_credit_def Let_def part_credit_eq)

lemma sum_credit_nonneg: "0 \<le> sum_list (map (term_credit a n) ts)"
  by (rule sum_list_nonneg) (auto simp: term_credit_bounds)

text \<open>
  Claim C3: for every original query, main name, list of location terms and candidate
  payload, each weighted component of the score lies between 0 and its weight (0.4,
  0.35, 0.15 and 0.1), \<open>totalScore\<close> is their sum, it is never negative and it never
  exceeds 0.4 + 0.35 + 0.15 + 0.1. The name similarity is clamped to 1 after the bonus
  is added, so the sum of the weights bounds the total whatever the bonus ceiling is.
\<close>

theorem totalScore_band:
  fixes originalQuery mainName :: string and locationTerms :: "string list" and pl :: "payload option"
  defines "sc \<equiv> calculateEnhancedSimilarity originalQuery mainName locationTerms pl"
  shows "0 \<le> nameScore sc \<and> nameScore sc \<le> 2 / 5 \<and>
         0 \<le> locationScore sc \<and> locationScore sc \<le> 35 / 100 \<and>
         0 \<le> addressScore sc \<and> addressScore sc \<le> 15 / 100 \<and>
         0 \<le> overallNameScore sc \<and> overallNameScore sc \<le> 1 / 10 \<and>
         totalScore sc = nameScore sc + locationScore sc + addressScore sc + overallNameScore sc \<and>
         0 \<le> totalScore sc \<and> totalScore sc \<le> 2 / 5 + 35 / 100 + 15 / 100 + 1 / 10"
proof -
  let ?hn = "or_else (field p_name pl) []" and ?ha = "or_else (field p_address pl) []"
  note n1 = nameSimilarity_bounds[of mainName ?hn]
  note n2 = nameSimilarity_bounds[of originalQuery ?hn]
  note a1 = addressSimilarity_bounds[of originalQuery ?ha]
  have ns: "nameScore sc = calculateNameSimilarity mainName ?hn * (2 / 5)"
    and ad: "addressScore sc = calculateAddressSimilarity originalQuery ?ha * (15 / 100)"
    and ov: "overallNameScore sc = calculateNameSimilarity originalQuery ?hn * (1 / 10)"
    and tot: "totalScore sc = nameScore sc + locationScore sc + addressScore sc + overallNameScore sc"
    by (simp_all add: sc_def calculateEnhancedSimilarity_def Let_def)
  have loc: "0 \<le> locationScore sc \<and> locationScore sc \<le> 35 / 100"
    using sum_credit_nonneg[of "toLowerCase ?ha" "toLowerCase ?hn" locationTerms]
    by (simp add: sc_def calculateEnhancedSimilarity_def Let_def fold_add)
  show ?thesis using n1 n2 a1 loc unfolding ns ad ov tot by auto
qed

theorem totalScore_band_witness:
  "0 \<le> totalScore (calculateEnhancedSimilarity ''Manipal Hospital Sarjapur'' ''manipal''
       [''sarjapur''] None) \<and>
   totalScore (calculateEnhancedSimilarity ''Manipal Hospital Sarjapur'' ''manipal''
       [''sarjapur''] None) \<le> 1"
  using totalScore_band [of "''Manipal Hospital Sarjapur''" "''manipal''" "[''sarjapur'']" None]
  by simp

text \<open>
  Claim C5, as the code has it: when the trimmed lower-case query and candidate name
  are neither equal nor contained in one another, the name similarity is the number
  of query tokens that match some candidate token (either token containing the
  other), divided by the larger of the two token counts, plus 0.2 when some query
  token of length at least 4 is contained in a candidate token, the sum clamped to
  at most 1; it lies between 0 and 1. The bonus looks in one direction only: a
  candidate token contained in the query token does not earn it.
\<close>

theorem nameSimilarity_tokens:
  fixes searchName hospitalName :: string
  defines "search \<equiv> trim (toLowerCase searchName)"
      and "hospital \<equiv> trim (toLowerCase hospitalName)"
  defines "searchWords \<equiv> split_on is_space search"
      and "hospitalWords \<equiv> split_on is_space hospital"
  assumes "search \<noteq> hospital"
      and "\<not> str_includes hospital search" and "\<not> str_includes search hospital"
  shows "calculateNameSimilarity searchName hospitalName =
           min 1 (of_nat (length (filter (\<lambda>w. \<exists>h \<in> set hospitalWords.
                      str_includes h w \<or> str_includes w h) searchWords)) /
                  of_nat (max (length searchWords) (length hospitalWords)) +
                  (if \<exists>w \<in> set searchWords. length w \<ge> 4 \<and>
                        (\<exists>h \<in> set hospitalWords. str_includes h w)
                   then 1 / 5 else 0)) \<and>
         0 \<le> calculateNameSimilarity searchName hospitalName \<and>
         calculateNameSimilarity searchName hospitalName \<le> 1"
proof -
  have ex: "list_ex (\<lambda>word. list_ex (\<lambda>hWord. str_includes hWord word \<and> 4 \<le> length word) hospitalWords) searchWords
      \<longleftrightarrow> (\<exists>w \<in> set searchWords. length w \<ge> 4 \<and> (\<exists>h \<in> set hospitalWords. str_includes h w))"
    by (auto simp: list_ex_iff)
  have m: "list_ex (words_match w) hospitalWords \<longleftrightarrow>
      (\<exists>h \<in> set hospitalWords. str_includes h w \<or> str_includes w h)" for w
    by (simp add: list_ex_iff words_match_def)
  have "calculateNameSimilarity searchName hospitalName =
           min 1 (of_nat (length (filter (\<lambda>w. \<exists>h \<in> set hospitalWords.
                      str_includes h w \<or> str_includes w h) searchWords)) /
                  of_nat (max (length searchWords) (length hospitalWords)) +
                  (if \<exists>w \<in> set searchWords. length w \<ge> 4 \<and>
                        (\<exists>h \<in> set hospitalWords. str_includes h w)
                   then 1 / 5 else 0))"
    using assms(5-7) ex
    unfolding calculateNameSimilarity_def Let_def fold_count m
      search_def[symmetric] hospital_def[symmetric]
      searchWords_def[symmetric] hospitalWords_def[symmetric]
    by simp
  then show ?thesis
    using nameSimilarity_bounds[of searchName hospitalName] by simp
qed

theorem nameSimilarity_tokens_witness:
  "trim (toLowerCase ''apollo care'') \<noteq> trim (toLowerCase ''apollox clinic'') \<and>
   \<not> str_includes (trim (toLowerCase ''apollox clinic'')) (trim (toLowerCase ''apollo care'')) \<and>
   \<not> str_includes (trim (toLowerCase ''apollo care'')) (trim (toLowerCase ''apollox clinic'')) \<and>
   calculateNameSimilarity ''apollo care'' ''apollox clinic'' = 7 / 10 \<and>
   calculateNameSimilarity ''apollo care'' ''apollox clinic'' \<le> 1"
proof -
  have h1: "trim (toLowerCase ''apollo care'') \<noteq> trim (toLowerCase ''apollox clinic'')"
    by code_simp
  have h2: "\<not> str_includes (trim (toLowerCase ''apollox clinic'')) (trim (toLowerCase ''apollo care''))"
    by code_simp
  have h3: "\<not> str_includes (trim (toLowerCase ''apollo care'')) (trim (toLowerCase ''apollox clinic''))"
    by code_simp
  have v: "calculateNameSimilarity ''apollo care'' ''apollox clinic'' = 7 / 10"
    by code_simp
  show ?thesis
    using nameSimilarity_tokens [OF h1 h2 h3] h1 h2 h3 v by simp
qed

text \<open>
  The claim as worded fails: the query token \<open>apollos\<close> has length 7 and contains the
  candidate token \<open>apollo\<close>, yet the code adds no bonus.
\<close>

theorem nameSimilarity_bonus_counterexample:
  "trim (toLowerCase ''apollos care'') \<noteq> trim (toLowerCase ''apollo clinic'') \<and>
   \<not> str_includes (trim (toLowerCase ''apollo clinic'')) (trim (toLowerCase ''apollos care'')) \<and>
   \<not> str_includes (trim (toLowerCase ''apollos care'')) (trim (toLowerCase ''apollo clinic'')) \<and>
   calculateNameSimilarity ''apollos care'' ''apollo clinic'' = 1 / 2 \<and>
   claimed_nameSimilarity ''apollos care'' ''apollo clinic'' = 7 / 10"
  by code_simp

text \<open>
  The location score in closed form, for any list of terms: 0.35 times the sum of
  the credits divided by the number of terms and clamped to 1, where a term found in
  the lower-case address or name earns 1 and any other term longer than 4 characters
  earns 0.5 when one of its parts of length at least 3 is found there.
\<close>

lemma locationScore_credits:
  fixes originalQuery mainName :: string and locationTerms :: "string list" and pl :: "payload option"
  defines "addressLower \<equiv> toLowerCase (or_else (field p_address pl) [])"
      and "nameLower \<equiv> toLowerCase (or_else (field p_name pl) [])"
  defines "found \<equiv> \<lambda>t. str_includes addressLower t \<or> str_includes nameLower t"
  defines "credit \<equiv> \<lambda>term.
             if found (toLowerCase term) then 1
             else if length (toLowerCase term) > 4 \<and>
                     (\<exists>part \<in> set (split_on (\<lambda>c. is_space c \<or> c = CHR ''-'') (toLowerCase term)).
                         length part \<ge> 3 \<and> found part)
             then 1 / 2 else (0 :: rat)"
  shows "locationScore (calculateEnhancedSimilarity originalQuery mainName locationTerms pl) =
           (if locationTerms = [] then 0
            else min 1 (sum_list (map credit locationTerms) / of_nat (length locationTerms)) *
                 (35 / 100))"
proof -
  have "term_credit addressLower nameLower t = credit t" for t
    by (auto simp: term_credit_def Let_def part_credit_eq credit_def found_def)
  then have "term_credit addressLower nameLower = credit" by (rule ext)
  then show ?thesis
    by (simp add: calculateEnhancedSimilarity_def Let_def fold_add
        addressLower_def nameLower_def)
qed

section \<open>Properties of the city filter\<close>

lemma str_includes_refl: "str_includes s s"
  by (cases s) auto

lemma filter_e_total:
  "\<forall>x \<in> set xs. \<exists>b. f x = Inr b \<Longrightarrow> filter_e f xs = Inr (filter (\<lambda>x. f x = Inr True) xs)"
proof (induction xs)
  case Nil
  then show ?case by simp
next
  case (Cons x xs)
  then obtain b where "f x = Inr b" by auto
  moreover have "filter_e f xs = Inr (filter (\<lambda>x. f x = Inr True) xs)"
    using Cons by simp
  ultimately show ?case by simp
qed

lemma filter_e_subseq: "filter_e f xs = Inr ys \<Longrightarrow> subseq ys xs"
  by (induction xs arbitrary: ys) (auto split: sum.splits if_splits)

lemma city_keep_no_throw:
  "cityLower \<notin> set object_prototype_props \<Longrightarrow> \<exists>b. city_keep cityLower pl = Inr b"
  by (auto simp: city_keep_def Let_def split: option.splits)

lemma city_keep_alias:
  assumes "map_of cityMappings a = Some vs" and "b \<in> set vs"
    and "toLowerCase (or_else (field p_city pl) []) = b"
  shows "city_keep a pl = Inr True"
  using assms str_includes_refl[of b]
  by (auto simp: city_keep_def Let_def list_ex_iff)

lemma filterByCity_subseq: "filterByCity results cityArg = Inr kept \<Longrightarrow> subseq kept results"
  by (auto simp: filterByCity_def Let_def dest: filter_e_subseq split: if_splits)

lemma filterByCity_no_city: "\<not> truthy cityArg \<Longrightarrow> filterByCity results cityArg = Inr results"
  by (simp add: filterByCity_def)

lemma filterByCity_route_no_city: "filterByCity results (route_city None) = Inr results"
  by (simp add: filterByCity_def route_city_def or_else_def truthy_def)

lemma filterByCity_total:
  assumes "truthy cityArg" and "toLowerCase (the cityArg) \<notin> set object_prototype_props"
  shows "filterByCity results cityArg =
     Inr (filter (\<lambda>h. city_keep (toLowerCase (the cityArg)) (payload h) = Inr True) results)"
  using assms by (simp add: filterByCity_def Let_def filter_e_total city_keep_no_throw)

text \<open>
  Claim C4, as the code has it: for the pairs bangalore/bengaluru, mumbai/bombay and
  delhi/new delhi in both directions, and for the query cities bangalore and
  bengaluru against the stored spelling banglore, filtering any candidate list with
  the first spelling as the query city (in any letter case) keeps every candidate
  whose city is the second spelling.
\<close>

theorem filterByCity_aliases:
  assumes "(a, b) \<in> set [(''bangalore'', ''bengaluru''), (''bengaluru'', ''bangalore''),
                           (''mumbai'', ''bombay''), (''bombay'', ''mumbai''),
                           (''delhi'', ''new delhi''), (''new delhi'', ''delhi''),
                           (''bangalore'', ''banglore''), (''bengaluru'', ''banglore'')]"
    and "toLowerCase queryCity = a"
    and "h \<in> set results"
    and "toLowerCase (or_else (field p_city (payload h)) []) = b"
  shows "\<exists>kept. filterByCity results (Some queryCity) = Inr kept \<and> h \<in> set kept"
proof -
  from assms(1) obtain vs where vs: "map_of cityMappings a = Some vs" "b \<in> set vs"
    by (auto simp: cityMappings_def)
  from assms(1) have np: "a \<notin> set object_prototype_props" and ne: "a \<noteq> []"
    by (auto simp: object_prototype_props_def)
  from ne assms(2) have t: "truthy (Some queryCity)"
    by (auto simp: truthy_def toLowerCase_def)
  have "city_keep a (payload h) = Inr True"
    using vs assms(4) by (rule city_keep_alias)
  then show ?thesis
    using filterByCity_total[OF t, of results] np assms(2,3) by simp
qed

theorem filterByCity_aliases_witness:
  "filterByCity [hit_in ''Pune'', hit_in ''Bengaluru''] (Some ''Bangalore'') = Inr [hit_in ''Bengaluru'']"
proof -
  have h1: "(''bangalore'', ''bengaluru'') \<in> set [(''bangalore'', ''bengaluru''), (''bengaluru'', ''bangalore''),
                           (''mumbai'', ''bombay''), (''bombay'', ''mumbai''),
                           (''delhi'', ''new delhi''), (''new delhi'', ''delhi''),
                           (''bangalore'', ''banglore''), (''bengaluru'', ''banglore'')]" by simp
  have h2: "toLowerCase ''Bangalore'' = ''bangalore''" by code_simp
  have h3: "hit_in ''Bengaluru'' \<in> set [hit_in ''Pune'', hit_in ''Bengaluru'']" by simp
  have h4: "toLowerCase (or_else (field p_city (payload (hit_in ''Bengaluru''))) []) = ''bengaluru''"
    by code_simp
  have v: "filterByCity [hit_in ''Pune'', hit_in ''Bengaluru''] (Some ''Bangalore'') = Inr [hit_in ''Bengaluru'']"
    by code_simp
  from filterByCity_aliases [OF h1 h2 h3 h4] v show ?thesis by simp
qed

text \<open>
  The claim as worded fails for \<open>banglore\<close> as the query city: the table has no such
  key, so a candidate stored as Bangalore or Bengaluru is dropped, while the query
  Bangalore keeps a candidate stored as Banglore.
\<close>

theorem filterByCity_banglore_counterexample:
  "filterByCity [hit_in ''Banglore''] (Some ''Bangalore'') = Inr [hit_in ''Banglore''] \<and>
   filterByCity [hit_in ''Bangalore''] (Some ''Banglore'') = Inr [] \<and>
   filterByCity [hit_in ''Bengaluru''] (Some ''Banglore'') = Inr []"
  by code_simp

text \<open>
  Claim C10 says that \<open>filterByCity\<close> always returns a subsequence of its input. What
  it returns is a subsequence (\<open>filterByCity_subseq\<close>) and without a city it returns
  its input (\<open>filterByCity_no_city\<close>), but it does not always return: for the query
  city \<open>constructor\<close> the table lookup yields a function inherited from
  \<open>Object.prototype\<close>, and the filter throws on the first candidate that reaches it.
\<close>

theorem filterByCity_constructor_throws:
  "filterByCity [hit_in ''Delhi''] (Some ''constructor'') =
     Inl (TypeError ''variations.some is not a function'')"
  by code_simp

section \<open>Properties of the hospital confirmation\<close>

lemma first_occurrences_append:
  "first_occurrences key seen (xs @ ys) =
     first_occurrences key seen xs @ first_occurrences key (seen \<union> key ` set xs) ys"
  by (induction xs arbitrary: seen) (auto simp: insert_absorb)

lemma first_occurrences_keys:
  "key ` set (first_occurrences key seen xs) = key ` set xs - seen"
  by (induction xs arbitrary: seen) auto

lemma first_occurrences_distinct: "distinct (map key (first_occurrences key seen xs))"
proof (induction xs arbitrary: seen)
  case Nil
  then show ?case by simp
next
  case (Cons x xs)
  have "key x \<notin> key ` set (first_occurrences key (insert (key x) seen) xs)"
    by (simp add: first_occurrences_keys)
  with Cons show ?case by simp
qed

lemma first_occurrences_find:
  "List.find (\<lambda>x. key x = k) (first_occurrences key seen xs) =
     (if k \<in> seen then None else List.find (\<lambda>x. key x = k) xs)"
proof (induction xs arbitrary: seen)
  case Nil
  then show ?case by simp
next
  case (Cons x xs)
  show ?case
  proof (cases "key x \<in> seen")
    case True
    then show ?thesis using Cons[of seen] by auto
  next
    case False
    then show ?thesis using Cons[of "insert (key x) seen"] by auto
  qed
qed

lemma fold_push_new:
  assumes "\<And>x. key' (mk x) = key x"
  shows "fold (push_new key mk) xs (seen, out) =
     (seen \<union> key ` set xs, out @ first_occurrences key' seen (map mk xs))"
  using assms
  by (induction xs arbitrary: seen out) (auto simp: push_new_def)

lemma candidate_key_semantic [simp]: "candidate_key (semantic_candidate q h) = candidate_key h"
  by (simp add: candidate_key_def semantic_candidate_def hit.defs candidate.defs)

lemma candidate_key_fuzzy [simp]: "candidate_key (fuzzy_candidate h) = candidate_key h"
  by (simp add: candidate_key_def fuzzy_candidate_def hit.defs candidate.defs)

lemma merge_step:
  assumes "\<And>x. candidate_key (mk x) = candidate_key (x :: hit)"
  shows "fold (push_new candidate_key mk) hits
           (candidate_key ` set inc, first_occurrences candidate_key {} inc) =
         (candidate_key ` set (inc @ map mk hits),
          first_occurrences candidate_key {} (inc @ map mk hits))"
proof -
  have "candidate_key ` set hits = candidate_key ` set (map mk hits)"
    using assms by (auto simp: image_iff)
  then show ?thesis
    by (simp add: fold_push_new[where key'=candidate_key, OF assms] first_occurrences_append
        image_Un image_image assms)
qed

lemma semantic_round_eq:
  "semantic_round env cityArg query (candidate_key ` set inc, first_occurrences candidate_key {} inc) =
     (candidate_key ` set (inc @ map (semantic_candidate query) (semantic_hits env cityArg query)),
      first_occurrences candidate_key {}
        (inc @ map (semantic_candidate query) (semantic_hits env cityArg query)))"
  by (simp add: semantic_round_def semantic_hits_def merge_step split: sum.splits option.splits)

lemma fuzzy_round_eq:
  "fuzzy_round env hospitalName (candidate_key ` set inc, first_occurrences candidate_key {} inc) =
     (candidate_key ` set (inc @ map fuzzy_candidate (fuzzy_hits env hospitalName)),
      first_occurrences candidate_key {} (inc @ map fuzzy_candidate (fuzzy_hits env hospitalName)))"
  by (simp add: fuzzy_round_def fuzzy_hits_def merge_step split: sum.splits option.splits)

lemma semantic_rounds_eq:
  "fold (semantic_round env cityArg) queries
      (candidate_key ` set inc, first_occurrences candidate_key {} inc) =
     (candidate_key ` set (inc @ concat (map (\<lambda>query. map (semantic_candidate query)
          (semantic_hits env cityArg query)) queries)),
      first_occurrences candidate_key {} (inc @ concat (map (\<lambda>query. map (semantic_candidate query)
          (semantic_hits env cityArg query)) queries)))"
proof (induction queries arbitrary: inc)
  case Nil
  then show ?case by simp
next
  case (Cons q qs)
  show ?case
    using Cons[of "inc @ map (semantic_candidate q) (semantic_hits env cityArg q)"]
    by (simp add: semantic_round_eq)
qed

lemma allResults_eq:
  "allResults env hospitalName cityArg =
     first_occurrences candidate_key {} (incoming env hospitalName cityArg)"
proof -
  have start: "({}, []) = (candidate_key ` set ([] :: candidate list),
      first_occurrences candidate_key {} ([] :: candidate list))"
    by simp
  show ?thesis
    unfolding allResults_def incoming_def
    by (subst start) (simp only: semantic_rounds_eq fuzzy_round_eq snd_conv append_Nil)
qed

lemma triple_key_of: "candidate_key h =
   (case payload_triple h of (n, c, a) \<Rightarrow> show_field n @ ''|'' @ show_field c @ ''|'' @ show_field a)"
  by (simp add: candidate_key_def triple_key_def payload_triple_def)

lemma distinct_map_inner: "distinct (map (\<lambda>x. g (f x)) xs) \<Longrightarrow> distinct (map f xs)"
  by (induction xs) auto

lemma distinct_keys_triples:
  "distinct (map candidate_key xs) \<Longrightarrow> distinct (map payload_triple xs)"
  unfolding triple_key_of by (rule distinct_map_inner)

text \<open>
  Claim C7: whatever the three semantic searches and the fuzzy search deliver, no two
  entries of the merged candidate list have the same (name, city, address), and for
  every key the merged list holds the first delivered hit with that key: the first
  occurrence wins and later duplicates are dropped.
\<close>

theorem merged_candidates_distinct:
  "distinct (map payload_triple (allResults env hospitalName cityArg)) \<and>
   (\<forall>i j. i < j \<and> j < length (allResults env hospitalName cityArg) \<longrightarrow>
      payload_triple (allResults env hospitalName cityArg ! i) \<noteq>
      payload_triple (allResults env hospitalName cityArg ! j)) \<and>
   (\<forall>k. List.find (\<lambda>x. candidate_key x = k) (allResults env hospitalName cityArg) =
        List.find (\<lambda>x. candidate_key x = k) (incoming env hospitalName cityArg))"
proof -
  let ?ar = "allResults env hospitalName cityArg"
  have d: "distinct (map payload_triple ?ar)"
    by (rule distinct_keys_triples) (simp add: allResults_eq first_occurrences_distinct)
  have "payload_triple (?ar ! i) \<noteq> payload_triple (?ar ! j)" if "i < j" "j < length ?ar" for i j
    using d that by (auto simp: distinct_conv_nth)
  moreover have "List.find (\<lambda>x. candidate_key x = k) ?ar =
        List.find (\<lambda>x. candidate_key x = k) (incoming env hospitalName cityArg)" for k
    by (simp add: allResults_eq first_occurrences_find)
  ultimately show ?thesis using d by blast
qed

theorem merged_candidates_distinct_witness:
  "length (allResults example_env ''Apollo'' None) = 3 \<and>
   payload_triple (allResults example_env ''Apollo'' None ! 0) \<noteq>
   payload_triple (allResults example_env ''Apollo'' None ! 2)"
proof -
  have "map hit_id (allResults example_env ''Apollo'' None) = [''Apollo Clinic'', ''Apollo'', ''Fortis'']"
    by code_simp
  then have "length (map hit_id (allResults example_env ''Apollo'' None)) = 3" by simp
  then have l: "length (allResults example_env ''Apollo'' None) = 3" by simp
  have "\<forall>i j. i < j \<and> j < length (allResults example_env ''Apollo'' None) \<longrightarrow>
      payload_triple (allResults example_env ''Apollo'' None ! i) \<noteq>
      payload_triple (allResults example_env ''Apollo'' None ! j)"
    using merged_candidates_distinct [of example_env "''Apollo''" None] by blast
  then have "payload_triple (allResults example_env ''Apollo'' None ! 0) \<noteq>
      payload_triple (allResults example_env ''Apollo'' None ! 2)"
    using l by simp
  with l show ?thesis by simp
qed

lemma score_candidate_total [simp]:
  "totalSimilarity (score_candidate n h) = totalScore (scores (score_candidate n h))"
  by (simp add: score_candidate_def Let_def candidate.defs scored.defs)

lemma sorted_desc_sort_key:
  "sorted_wrt (\<lambda>a b. f b \<le> (f a :: rat)) (sort_key (\<lambda>h. - f h) xs)"
proof -
  have "sorted (map (\<lambda>h. - f h) (sort_key (\<lambda>h. - f h) xs))" by (rule sorted_sort_key)
  then show ?thesis by (simp add: sorted_map)
qed

lemma confirmHospital_try_shape:
  assumes "confirmHospital_try env hospitalName cityArg = Inr ms"
  shows "length ms \<le> 3 \<and> (\<forall>m \<in> set ms. 1 / 4 \<le> totalSimilarity m \<and>
            totalSimilarity m = totalScore (scores m)) \<and>
         sorted_wrt (\<lambda>a b. totalSimilarity b \<le> totalSimilarity a) ms"
proof -
  from assms obtain cf where
    ms: "ms = take 3 (filter (\<lambda>h. 1 / 4 \<le> totalSimilarity h)
            (sort_key (\<lambda>h. - totalSimilarity h) (map (score_candidate hospitalName) cf)))"
    by (auto simp: confirmHospital_try_def Let_def split: sum.splits)
  have "set ms \<subseteq> set (map (score_candidate hospitalName) cf)"
    unfolding ms using set_take_subset[of 3] by fastforce
  then have "\<forall>m \<in> set ms. totalSimilarity m = totalScore (scores m)" by auto
  moreover have "\<forall>m \<in> set ms. 1 / 4 \<le> totalSimilarity m"
    unfolding ms using set_take_subset[of 3] by fastforce
  moreover have "sorted_wrt (\<lambda>a b. totalSimilarity b \<le> totalSimilarity a) ms"
    unfolding ms by (intro sorted_wrt_take sorted_wrt_filter sorted_desc_sort_key)
  moreover have "length ms \<le> 3" unfolding ms by simp
  ultimately show ?thesis by blast
qed

text \<open>
  Claim C1: every call of \<open>confirmHospital\<close> returns a list of at most 3 elements,
  each with \<open>totalScore\<close> at least 0.25, in descending order of \<open>totalScore\<close>.
\<close>

theorem confirmHospital_top3:
  "\<exists>ms. confirmHospital env hospitalName cityArg = Inr ms \<and>
        length ms \<le> 3 \<and>
        (\<forall>m \<in> set ms. 1 / 4 \<le> totalScore (scores m)) \<and>
        sorted_wrt (\<lambda>a b. totalScore (scores a) \<ge> totalScore (scores b)) ms"
proof (cases "confirmHospital_try env hospitalName cityArg")
  case (Inl e)
  then show ?thesis by (simp add: confirmHospital_def)
next
  case (Inr ms)
  note sh = confirmHospital_try_shape[OF Inr]
  have "sorted_wrt (\<lambda>a b. totalScore (scores a) \<ge> totalScore (scores b)) ms"
    by (rule sorted_wrt_mono_rel[of ms "\<lambda>a b. totalSimilarity b \<le> totalSimilarity a"])
      (use sh in auto)
  with Inr sh show ?thesis by (auto simp: confirmHospital_def)
qed

theorem confirmHospital_top3_witness:
  "\<exists>ms. confirmHospital example_env ''Apollo'' None = Inr ms \<and> length ms = 2 \<and>
        1 / 4 \<le> totalScore (scores (ms ! 1)) \<and>
        totalScore (scores (ms ! 1)) \<le> totalScore (scores (ms ! 0))"
proof -
  from confirmHospital_top3 [of example_env "''Apollo''" None]
  obtain ms where ms: "confirmHospital example_env ''Apollo'' None = Inr ms"
    and ge: "\<forall>m \<in> set ms. 1 / 4 \<le> totalScore (scores m)"
    and so: "sorted_wrt (\<lambda>a b. totalScore (scores a) \<ge> totalScore (scores b)) ms"
    by blast
  have "map hit_id (projr (confirmHospital example_env ''Apollo'' None)) = [''Apollo'', ''Apollo Clinic'']"
    by code_simp
  then have "length (map hit_id ms) = 2" using ms by simp
  then have l: "length ms = 2" by simp
  then have "ms ! 1 \<in> set ms" by simp
  then have "1 / 4 \<le> totalScore (scores (ms ! 1))" using ge by blast
  moreover have "totalScore (scores (ms ! 1)) \<le> totalScore (scores (ms ! 0))"
    using so l by (simp add: sorted_wrt_iff_nth_less)
  ultimately show ?thesis using ms l by blast
qed





section \<open>Properties of the search path\<close>

lemma first_occurrences_set: "set (first_occurrences key seen xs) \<subseteq> set xs"
  by (induction xs arbitrary: seen) auto

lemma first_occurrences_sorted:
  "sorted_wrt R xs \<Longrightarrow> sorted_wrt R (first_occurrences key seen xs)"
proof (induction xs arbitrary: seen)
  case Nil
  then show ?case by simp
next
  case (Cons x xs)
  then show ?case using first_occurrences_set[of key _ xs] by auto
qed

lemma uniqueResults_eq:
  "snd (fold (push_new uniqueKey (\<lambda>r. r)) hits ({}, [])) = first_occurrences uniqueKey {} hits"
  using fold_push_new[of uniqueKey "\<lambda>r. r" uniqueKey hits "{}" "[]"] by simp

lemma hybridSearch_city:
  assumes "truthy cityFilter"
    and "hybridSearch env collectionName vec topK cityFilter = Inr results"
    and "result results = Some hs"
  shows "\<exists>body r hits. qdrant_api env body = Ok r \<and> result r = Some hits \<and>
           hs = take topK
             (filter (\<lambda>r. hit_city_lower r = toLowerCase (the cityFilter))
                (first_occurrences uniqueKey {} hits) @
              filter (\<lambda>r. hit_city_lower r \<noteq> toLowerCase (the cityFilter) \<and>
                   (str_includes (hit_city_lower r) (toLowerCase (the cityFilter)) \<or>
                    str_includes (hit_address_lower r) (toLowerCase (the cityFilter))))
                (first_occurrences uniqueKey {} hits))"
proof -
  let ?body = "\<lparr> q_collection = collectionName, q_vector = vec, q_limit = topK * 2,
                 q_score_threshold = Some (1 / 10),
                 q_filter = Some (Should [MatchValue ''city_exact'' (the cityFilter),
                                          MatchText ''city'' (the cityFilter),
                                          MatchText ''address'' (the cityFilter)]) \<rparr>"
  from assms(1,2) obtain r where api: "qdrant_api env ?body = Ok r"
    by (auto simp: hybridSearch_def Let_def split: http.splits)
  from assms api obtain hits where hits: "result r = Some hits"
    by (cases "result r") (auto simp: hybridSearch_def Let_def)
  from assms api hits have "hs = take topK
             (filter (\<lambda>r. hit_city_lower r = toLowerCase (the cityFilter))
                (first_occurrences uniqueKey {} hits) @
              filter (\<lambda>r. hit_city_lower r \<noteq> toLowerCase (the cityFilter) \<and>
                   (str_includes (hit_city_lower r) (toLowerCase (the cityFilter)) \<or>
                    str_includes (hit_address_lower r) (toLowerCase (the cityFilter))))
                (first_occurrences uniqueKey {} hits))"
    by (auto simp: hybridSearch_def Let_def uniqueResults_eq simp del: take_append)
  with api hits show ?thesis by blast
qed

lemma to_item_named: "i_name (to_item h) \<noteq> ''Unknown'' \<longleftrightarrow> named h"
  by (auto simp: to_item_def named_def or_else_def split: option.splits)

lemma filter_to_item:
  "filter (\<lambda>it. i_name it \<noteq> ''Unknown'') (map to_item hs) = map to_item (filter named hs)"
  by (induction hs) (auto simp: to_item_named)

text \<open>
  Claim C9, as the code has it: a search with a city and a limit that returns, returns
  at most \<open>limit\<close> items and none without a name; the items are first hits whose city
  equals the queried city (ignoring case), then hits whose city or address only
  contains it; when the index answered in ranked order, each of the two groups is in
  descending order of score, and so is the whole list when no partial match is
  returned.
\<close>

theorem searchHospitals_city:
  assumes "truthy cityArg"
    and "searchHospitals env cityArg limit = Inr items"
  shows "length items \<le> limit \<and>
         (\<forall>it \<in> set items. i_name it \<noteq> ''Unknown'') \<and>
         (\<exists>body r hits exact partial.
             qdrant_api env body = Ok r \<and> result r = Some hits \<and>
             items = map to_item exact @ map to_item partial \<and>
             set exact \<union> set partial \<subseteq> set hits \<and>
             (\<forall>h \<in> set exact. named h \<and> hit_city_lower h = toLowerCase (the cityArg)) \<and>
             (\<forall>h \<in> set partial. named h \<and> hit_city_lower h \<noteq> toLowerCase (the cityArg) \<and>
                 (str_includes (hit_city_lower h) (toLowerCase (the cityArg)) \<or>
                  str_includes (hit_address_lower h) (toLowerCase (the cityArg)))) \<and>
             (ranked hits \<longrightarrow> ranked exact \<and> ranked partial \<and>
                 (partial = [] \<longrightarrow> sorted_wrt (\<lambda>a b. i_score b \<le> i_score a) items)))"
proof -
  let ?c = "toLowerCase (the cityArg)"
  from assms(1,2) obtain results hs vec where
    hy: "hybridSearch env COLLECTION vec limit cityArg = Inr results"
    and rs: "result results = Some hs"
    and items: "items = filter (\<lambda>it. i_name it \<noteq> ''Unknown'') (map to_item hs)"
    by (auto simp: searchHospitals_def split: sum.splits option.splits)
  from hybridSearch_city[OF assms(1) hy rs] obtain body r hits where
    api: "qdrant_api env body = Ok r" "result r = Some hits"
    and hs: "hs = take limit
             (filter (\<lambda>r. hit_city_lower r = ?c) (first_occurrences uniqueKey {} hits) @
              filter (\<lambda>r. hit_city_lower r \<noteq> ?c \<and>
                   (str_includes (hit_city_lower r) ?c \<or> str_includes (hit_address_lower r) ?c))
                (first_occurrences uniqueKey {} hits))"
    by blast
  let ?U = "first_occurrences uniqueKey {} hits"
  let ?E = "filter (\<lambda>r. hit_city_lower r = ?c) ?U"
  let ?P = "filter (\<lambda>r. hit_city_lower r \<noteq> ?c \<and>
                   (str_includes (hit_city_lower r) ?c \<or> str_includes (hit_address_lower r) ?c)) ?U"
  define exact where "exact = filter named (take limit ?E)"
  define partial where "partial = filter named (take (limit - length ?E) ?P)"
  have i: "items = map to_item exact @ map to_item partial"
    by (simp add: items hs filter_to_item exact_def partial_def)
  have len: "length items \<le> limit"
    unfolding items hs by (rule order_trans[OF length_filter_le]) simp
  have nm: "\<forall>it \<in> set items. i_name it \<noteq> ''Unknown''" unfolding items by simp
  have sub: "set exact \<union> set partial \<subseteq> set hits"
    using first_occurrences_set[of uniqueKey "{}" hits]
      set_take_subset[of limit ?E] set_take_subset[of "limit - length ?E" ?P]
    by (auto simp: exact_def partial_def)
  have e: "\<forall>h \<in> set exact. named h \<and> hit_city_lower h = ?c"
    using set_take_subset[of limit ?E] by (auto simp: exact_def)
  have p: "\<forall>h \<in> set partial. named h \<and> hit_city_lower h \<noteq> ?c \<and>
                 (str_includes (hit_city_lower h) ?c \<or> str_includes (hit_address_lower h) ?c)"
    using set_take_subset[of "limit - length ?E" ?P] by (auto simp: partial_def)
  have rk: "ranked exact \<and> ranked partial \<and>
      (partial = [] \<longrightarrow> sorted_wrt (\<lambda>a b. i_score b \<le> i_score a) items)" if "ranked hits"
  proof -
    from that have rU: "sorted_wrt (\<lambda>a b. score b \<le> score a) ?U"
      unfolding ranked_def by (rule first_occurrences_sorted)
    have re: "ranked exact" unfolding ranked_def exact_def
      by (intro sorted_wrt_filter sorted_wrt_take rU)
    have rp: "ranked partial" unfolding ranked_def partial_def
      by (intro sorted_wrt_filter sorted_wrt_take rU)
    have "sorted_wrt (\<lambda>a b. i_score b \<le> i_score a) items" if "partial = []"
      using re that by (simp add: i ranked_def sorted_wrt_map to_item_def)
    with re rp show ?thesis by blast
  qed
  from i len nm sub e p rk api show ?thesis by blast
qed

theorem searchHospitals_city_witness:
  "\<exists>items. searchHospitals five_mumbai_env (Some ''Mumbai'') 2 = Inr items \<and>
      map i_name items = [''A'', ''B''] \<and>
      sorted_wrt (\<lambda>a b. i_score b \<le> i_score a) items"
proof -
  define items where "items = projr (searchHospitals five_mumbai_env (Some ''Mumbai'') 2)"
  have t: "truthy (Some ''Mumbai'')" by (simp add: truthy_def)
  have v: "searchHospitals five_mumbai_env (Some ''Mumbai'') 2 = Inr items"
    unfolding items_def by code_simp
  have m: "map i_name items = [''A'', ''B'']"
    unfolding items_def by code_simp
  have c: "list_all (\<lambda>h. hit_city_lower h = toLowerCase (the (Some ''Mumbai''))) five_mumbai_hits"
    by code_simp
  from searchHospitals_city [OF t v] obtain body r hits exact partial where
    api: "qdrant_api five_mumbai_env body = Ok r" "result r = Some hits"
    and sub: "set exact \<union> set partial \<subseteq> set hits"
    and p: "\<forall>h \<in> set partial. hit_city_lower h \<noteq> toLowerCase (the (Some ''Mumbai''))"
    and rk: "ranked hits \<longrightarrow> ranked exact \<and> ranked partial \<and>
                 (partial = [] \<longrightarrow> sorted_wrt (\<lambda>a b. i_score b \<le> i_score a) items)"
    by blast
  from api have hits: "hits = five_mumbai_hits" by (auto simp: five_mumbai_env_def)
  have "ranked hits"
    unfolding hits by (simp add: ranked_def five_mumbai_hits_def example_hit_def)
  moreover have "partial = []"
  proof (rule ccontr)
    assume "partial \<noteq> []"
    then obtain h where h: "h \<in> set partial" by (cases partial) auto
    with sub have "h \<in> set five_mumbai_hits" unfolding hits by blast
    with c have "hit_city_lower h = toLowerCase (the (Some ''Mumbai''))"
      by (simp add: list_all_iff)
    with p h show False by blast
  qed
  ultimately have "sorted_wrt (\<lambda>a b. i_score b \<le> i_score a) items" using rk by simp
  with v m show ?thesis by (intro exI[of _ items] conjI)
qed

text \<open>
  The claim as worded fails: a partial match with a higher score is listed after an
  exact match with a lower one, though the index answered in ranked order.
\<close>

theorem searchHospitals_order_counterexample:
  "ranked mumbai_hits \<and>
   searchHospitals mumbai_env (Some ''Mumbai'') 2 =
     Inr [\<lparr> i_name = ''Breach Candy'', i_address = ''Warden Road'', i_city = ''Mumbai'',
            i_score = Some (4 / 5) \<rparr>,
          \<lparr> i_name = ''Lilavati'', i_address = ''Vashi'', i_city = ''Navi Mumbai'',
            i_score = Some (9 / 10) \<rparr>] \<and>
   Some (4 / 5 :: rat) < Some (9 / 10)"
proof -
  have "ranked mumbai_hits"
    by (simp add: ranked_def mumbai_hits_def example_hit_def)
  moreover have "searchHospitals mumbai_env (Some ''Mumbai'') 2 =
     Inr [\<lparr> i_name = ''Breach Candy'', i_address = ''Warden Road'', i_city = ''Mumbai'',
            i_score = Some (4 / 5) \<rparr>,
          \<lparr> i_name = ''Lilavati'', i_address = ''Vashi'', i_city = ''Navi Mumbai'',
            i_score = Some (9 / 10) \<rparr>]"
    by code_simp
  moreover have "Some (4 / 5 :: rat) < Some (9 / 10)"
    by simp
  ultimately show ?thesis by blast
qed

section \<open>Properties of the name decomposition\<close>

lemma to_lower_idem: "to_lower (to_lower c) = to_lower c"
  unfolding to_lower_def Let_def by auto

lemma toLowerCase_fixed: "(\<forall>c \<in> set s. to_lower c = c) \<Longrightarrow> toLowerCase s = s"
  by (simp add: toLowerCase_def map_idI)

lemma set_trim: "set (trim s) \<subseteq> set s"
  unfolding trim_def by (auto dest!: set_dropWhileD)

lemma length_trim: "length (trim s) \<le> length s"
proof -
  have "length (trim s) \<le> length (dropWhile is_space s)"
    unfolding trim_def using length_dropWhile_le[of is_space "rev (dropWhile is_space s)"] by simp
  also have "\<dots> \<le> length s" by (rule length_dropWhile_le)
  finally show ?thesis .
qed

lemma dropWhile_fixed: "xs = [] \<or> \<not> P (hd xs) \<Longrightarrow> dropWhile P xs = xs"
  by (cases xs) auto

lemma dropWhile_head: "dropWhile P xs = [] \<or> \<not> P (hd (dropWhile P xs))"
  using hd_dropWhile[of P xs] by blast

lemma trim_idem: "trim (trim s) = trim s"
proof -
  define u where "u = dropWhile is_space s"
  define t where "t = rev (dropWhile is_space (rev u))"
  have t: "trim s = t" by (simp add: trim_def u_def t_def)
  have u: "u = [] \<or> \<not> is_space (hd u)" unfolding u_def by (rule dropWhile_head)
  have "rev (rev u) = rev (takeWhile is_space (rev u) @ dropWhile is_space (rev u))"
    by (simp only: takeWhile_dropWhile_id)
  then have ut: "u = t @ rev (takeWhile is_space (rev u))"
    by (simp only: rev_rev_ident rev_append t_def)
  have "t = [] \<or> \<not> is_space (hd t)"
  proof (cases t)
    case Nil
    then show ?thesis by simp
  next
    case (Cons a as)
    then have "hd u = hd t" "u \<noteq> []" using ut by (metis hd_append2 list.distinct(1), metis Nil_is_append_conv list.distinct(1))
    with u show ?thesis by simp
  qed
  then have a: "dropWhile is_space t = t" by (rule dropWhile_fixed)
  have "rev t = dropWhile is_space (rev u)" by (simp add: t_def)
  then have "rev t = [] \<or> \<not> is_space (hd (rev t))" using dropWhile_head[of is_space "rev u"] by simp
  then have b: "dropWhile is_space (rev t) = rev t" by (rule dropWhile_fixed)
  have "trim t = t" by (simp add: trim_def a b)
  then show ?thesis by (simp add: t)
qed

lemma snd_advance: "snd (advance p k) = drop k (snd p)"
  by (cases p) (simp add: advance_def)

lemma atom_ends_drop: "q \<in> set (atom_ends a p) \<Longrightarrow> \<exists>k. snd q = drop k (snd p)"
proof (cases a)
  case (Opt c)
  assume "q \<in> set (atom_ends a p)"
  then have "q = advance p 1 \<or> q = p" using Opt by (auto split: list.splits if_splits)
  then show ?thesis
  proof
    assume "q = advance p 1" then show ?thesis using snd_advance by blast
  next
    assume "q = p" then have "snd q = drop 0 (snd p)" by simp
    then show ?thesis by blast
  qed
next
  case WordB
  assume "q \<in> set (atom_ends a p)"
  then have "snd q = drop 0 (snd p)" using WordB by (auto split: if_splits)
  then show ?thesis by blast
next
  case Eoi
  assume "q \<in> set (atom_ends a p)"
  then have "snd q = drop 0 (snd p)" using Eoi by (auto split: if_splits)
  then show ?thesis by blast
qed (auto simp: snd_advance)

lemma set_map_filter:
  "set (List.map_filter f xs) = {y. \<exists>x \<in> set xs. f x = Some y}"
  by (induction xs) (auto split: option.splits)

lemma rx_match_step:
  "rx_match (a # as) p = Some r \<Longrightarrow> \<exists>q \<in> set (atom_ends a p). rx_match as q = Some r"
proof -
  assume "rx_match (a # as) p = Some r"
  then have "r \<in> set (List.map_filter (rx_match as) (atom_ends a p))"
    by (auto split: list.splits)
  then show ?thesis by (auto simp: set_map_filter)
qed

lemma rx_match_drop: "rx_match re p = Some r \<Longrightarrow> \<exists>k. snd r = drop k (snd p)"
proof (induction re arbitrary: p)
  case Nil
  then have "snd r = drop 0 (snd p)" by simp
  then show ?case by blast
next
  case (Cons a as)
  from rx_match_step[OF Cons.prems] obtain q where
    q: "q \<in> set (atom_ends a p)" "rx_match as q = Some r" by blast
  from atom_ends_drop[OF q(1)] obtain k1 where "snd q = drop k1 (snd p)" by blast
  moreover from Cons.IH[OF q(2)] obtain k2 where "snd r = drop k2 (snd q)" by blast
  ultimately have "snd r = drop (k2 + k1) (snd p)" by simp
  then show ?case by blast
qed

lemma rx_match_length: "rx_match re p = Some r \<Longrightarrow> length (snd r) \<le> length (snd p)"
  using rx_match_drop[of re p r] by auto

lemma rx_match_set: "rx_match re p = Some r \<Longrightarrow> set (snd r) \<subseteq> set (snd p)"
  using rx_match_drop[of re p r] by (auto dest: in_set_dropD)

lemma rx_match_plus_shorter:
  assumes "rx_match (Plus cl # as) p = Some r"
  shows "length (snd r) < length (snd p)"
proof -
  from rx_match_step[OF assms] obtain q where
    q: "q \<in> set (atom_ends (Plus cl) p)" "rx_match as q = Some r" by blast
  from q(1) obtain k where k: "q = advance p k" "1 \<le> k"
    "k \<le> length (takeWhile (in_class cl) (snd p))" by auto
  have "length (takeWhile (in_class cl) (snd p)) \<le> length (snd p)"
    by (rule length_takeWhile_le)
  with k have "length (snd q) < length (snd p)" by (simp add: snd_advance)
  with rx_match_length[OF q(2)] show ?thesis by simp
qed

lemma replace_all_no_match:
  "\<not> rx_search re prev s \<Longrightarrow> replace_all re (prev, s) = s"
proof (induction s arbitrary: prev)
  case Nil
  then have "rx_match re (prev, []) = None" by (cases "rx_match re (prev, [])") auto
  then show ?case by (subst replace_all.simps) simp
next
  case (Cons c cs)
  then have "rx_match re (prev, c # cs) = None"
    by (cases "rx_match re (prev, c # cs)") auto
  moreover have "replace_all re (Some c, cs) = cs" using Cons by simp
  ultimately have "rx_match re (prev, c # cs) = None" "replace_all re (Some c, cs) = cs" by auto
  then show ?case by (subst replace_all.simps) simp
qed

lemma replace_all_length: "length (replace_all re p) \<le> length (snd p)"
proof (induction re p rule: replace_all.induct)
  case (1 re p)
  show ?case
  proof (cases "rx_match re p")
    case None
    show ?thesis
    proof (cases "snd p")
      case Nil
      then show ?thesis using None by (subst replace_all.simps) simp
    next
      case (Cons c cs)
      then show ?thesis using None 1(1)[OF None Cons]
        by (subst replace_all.simps) auto
    qed
  next
    case (Some r)
    show ?thesis
    proof (cases "length (snd r) < length (snd p)")
      case True
      then show ?thesis using Some 1(2)[OF Some True]
        by (subst replace_all.simps) simp
    next
      case False
      show ?thesis
      proof (cases "snd p")
        case Nil
        then show ?thesis using Some False by (subst replace_all.simps) simp
      next
        case (Cons c cs)
        then show ?thesis using Some False 1(3)[OF Some False Cons]
          by (subst replace_all.simps) auto
      qed
    qed
  qed
qed

lemma replace_all_set: "set (replace_all re p) \<subseteq> set (snd p)"
proof (induction re p rule: replace_all.induct)
  case (1 re p)
  show ?case
  proof (cases "rx_match re p")
    case None
    show ?thesis
    proof (cases "snd p")
      case Nil
      then show ?thesis using None by (subst replace_all.simps) simp
    next
      case (Cons c cs)
      then show ?thesis using None 1(1)[OF None Cons]
        by (subst replace_all.simps) auto
    qed
  next
    case (Some r)
    show ?thesis
    proof (cases "length (snd r) < length (snd p)")
      case True
      then show ?thesis using Some 1(2)[OF Some True] rx_match_set[OF Some]
        by (subst replace_all.simps) auto
    next
      case False
      show ?thesis
      proof (cases "snd p")
        case Nil
        then show ?thesis using Some False by (subst replace_all.simps) simp
      next
        case (Cons c cs)
        then show ?thesis using Some False 1(3)[OF Some False Cons]
          by (subst replace_all.simps) auto
      qed
    qed
  qed
qed

lemma replace_all_shorter:
  assumes ne: "\<And>p r. rx_match re p = Some r \<Longrightarrow> length (snd r) < length (snd p)"
  shows "rx_search re prev s \<Longrightarrow> length (replace_all re (prev, s)) < length s"
proof (induction s arbitrary: prev)
  case Nil
  then obtain r where "rx_match re (prev, []) = Some r" by auto
  from ne[OF this] show ?case by simp
next
  case (Cons c cs)
  show ?case
  proof (cases "rx_match re (prev, c # cs)")
    case None
    with Cons.prems have "rx_search re (Some c) cs" by simp
    from Cons.IH[OF this] None show ?thesis
      by (subst replace_all.simps) simp
  next
    case (Some r)
    from ne[OF Some] have l: "length (snd r) < length (snd (prev, c # cs))" .
    have "length (replace_all re r) \<le> length (snd r)" by (rule replace_all_length)
    with l Some show ?thesis
      by (subst replace_all.simps) simp
  qed
qed

lemma js_replace_cases:
  assumes "re = Plus cl # as"
  shows "(\<not> rx_test re s \<longrightarrow> js_replace s re = s) \<and>
         (rx_test re s \<longrightarrow> length (js_replace s re) < length s) \<and>
         length (js_replace s re) \<le> length s \<and> set (js_replace s re) \<subseteq> set s"
proof -
  have ne: "\<And>p r. rx_match re p = Some r \<Longrightarrow> length (snd r) < length (snd p)"
    unfolding assms by (rule rx_match_plus_shorter)
  show ?thesis
    unfolding js_replace_def rx_test_def
    using replace_all_no_match[of re None s] replace_all_shorter[OF ne, where prev=None and s=s]
      replace_all_length[of re "(None, s)"] replace_all_set[of re "(None, s)"]
    by auto
qed

lemma extractMain_lower: "\<forall>c \<in> set (extractMainHospitalName s). to_lower c = c"
proof -
  have "set (extractMainHospitalName s) \<subseteq> set (toLowerCase s)"
    unfolding extractMainHospitalName_def Let_def js_replace_def
    using set_trim replace_all_set
    by (metis (no_types, lifting) order_trans snd_conv)
  then show ?thesis by (auto simp: toLowerCase_def to_lower_idem)
qed

lemma extractMain_trimmed: "trim (extractMainHospitalName s) = extractMainHospitalName s"
  by (simp add: extractMainHospitalName_def Let_def trim_idem)

text \<open>
  Claim C2, as the code has it: applying \<open>extractMainHospitalName\<close> twice gives the
  same as applying it once exactly when the first result holds no further match of
  the three patterns that the function strips (a locality of the gazetteer after
  white space, a word and a road word after white space, a trailing
  hospital, medical center or clinic).
\<close>

theorem extractMain_twice:
  "extractMainHospitalName (extractMainHospitalName s) = extractMainHospitalName s \<longleftrightarrow>
     \<not> rx_test strip_locality (extractMainHospitalName s) \<and>
     \<not> rx_test strip_road (extractMainHospitalName s) \<and>
     \<not> rx_test strip_suffix (extractMainHospitalName s)"
proof -
  define t where "t = extractMainHospitalName s"
  have lo: "toLowerCase t = t" unfolding t_def by (rule toLowerCase_fixed) (rule extractMain_lower)
  have tr: "trim t = t" unfolding t_def by (rule extractMain_trimmed)
  have c1: "(\<not> rx_test strip_locality x \<longrightarrow> js_replace x strip_locality = x) \<and>
         (rx_test strip_locality x \<longrightarrow> length (js_replace x strip_locality) < length x) \<and>
         length (js_replace x strip_locality) \<le> length x \<and> set (js_replace x strip_locality) \<subseteq> set x" for x
    by (rule js_replace_cases, unfold strip_locality_def, rule refl)
  have c2: "(\<not> rx_test strip_road x \<longrightarrow> js_replace x strip_road = x) \<and>
         (rx_test strip_road x \<longrightarrow> length (js_replace x strip_road) < length x) \<and>
         length (js_replace x strip_road) \<le> length x \<and> set (js_replace x strip_road) \<subseteq> set x" for x
    by (rule js_replace_cases, unfold strip_road_def, rule refl)
  have c3: "(\<not> rx_test strip_suffix x \<longrightarrow> js_replace x strip_suffix = x) \<and>
         (rx_test strip_suffix x \<longrightarrow> length (js_replace x strip_suffix) < length x) \<and>
         length (js_replace x strip_suffix) \<le> length x \<and> set (js_replace x strip_suffix) \<subseteq> set x" for x
    by (rule js_replace_cases, unfold strip_suffix_def, rule refl)
  let ?r1 = "js_replace t strip_locality"
  let ?r2 = "js_replace ?r1 strip_road"
  let ?r3 = "js_replace ?r2 strip_suffix"
  have f: "extractMainHospitalName t = trim ?r3"
    by (simp add: extractMainHospitalName_def Let_def lo)
  have le: "length (trim ?r3) \<le> length ?r3" "length ?r3 \<le> length ?r2" "length ?r2 \<le> length ?r1"
    "length ?r1 \<le> length t"
    using length_trim[of ?r3] c1[of t] c2[of ?r1] c3[of ?r2] by auto
  show ?thesis
  proof (cases "rx_test strip_locality t \<or> rx_test strip_road t \<or> rx_test strip_suffix t")
    case False
    then have "?r1 = t" using c1[of t] by simp
    moreover then have "?r2 = t" using c2[of t] False by simp
    moreover then have "?r3 = t" using c3[of t] False \<open>?r1 = t\<close> by simp
    ultimately show ?thesis using False f tr unfolding t_def[symmetric] by simp
  next
    case True
    have "length (trim ?r3) < length t"
    proof (cases "rx_test strip_locality t")
      case True
      then have "length ?r1 < length t" using c1[of t] by simp
      with le show ?thesis by linarith
    next
      case nl: False
      then have r1: "?r1 = t" using c1[of t] by simp
      show ?thesis
      proof (cases "rx_test strip_road t")
        case True
        then have "length ?r2 < length t" using c2[of t] r1 by simp
        with le show ?thesis by linarith
      next
        case False
        then have r2: "?r2 = t" using c2[of t] r1 by simp
        from True nl False have "rx_test strip_suffix t" by simp
        then have "length ?r3 < length t" using c3[of t] r1 r2 by simp
        with le show ?thesis by linarith
      qed
    qed
    then have "extractMainHospitalName t \<noteq> t" using f by auto
    then show ?thesis using True unfolding t_def[symmetric] by simp
  qed
qed

theorem extractMain_twice_witness:
  "extractMainHospitalName (extractMainHospitalName ''Manipal Hospital Sarjapur Road'') =
     extractMainHospitalName ''Manipal Hospital Sarjapur Road''"
proof -
  have "\<not> rx_test strip_locality (extractMainHospitalName ''Manipal Hospital Sarjapur Road'') \<and>
     \<not> rx_test strip_road (extractMainHospitalName ''Manipal Hospital Sarjapur Road'') \<and>
     \<not> rx_test strip_suffix (extractMainHospitalName ''Manipal Hospital Sarjapur Road'')"
    by code_simp
  then show ?thesis using extractMain_twice [of "''Manipal Hospital Sarjapur Road''"] by blast
qed

text \<open>
  The claim as worded fails: each application strips one trailing suffix.
\<close>

theorem extractMain_not_idempotent_counterexample:
  "extractMainHospitalName ''Apollo Clinic Hospital'' = ''apollo clinic'' \<and>
   extractMainHospitalName (extractMainHospitalName ''Apollo Clinic Hospital'') = ''apollo''"
  by code_simp

section \<open>The location terms that reach the scoring\<close>

text \<open>
  \<open>calculateEnhancedSimilarity\<close> is called by \<open>confirmHospital\<close> only, with the terms
  that \<open>extractLocationTerms\<close> finds in the hospital name. Every such term is a word of
  the gazetteer, or a word, white space and a road word, or old/new, white space and
  a word: the short ones (\<open>btm\<close>, \<open>hsr\<close>) have no separator.
\<close>

lemma is_space_to_lower: "is_space (to_lower c) = is_space c"
  unfolding is_space_def to_lower_def Let_def by auto

lemma of_char_to_lower:
  "(of_char (to_lower c) :: nat) =
     (if 65 \<le> (of_char c :: nat) \<and> (of_char c :: nat) \<le> 90 then of_char c + 32 else of_char c)"
  unfolding to_lower_def Let_def by (simp add: of_char_of)

lemma hyphen_to_lower: "(to_lower c = CHR ''-'') = (c = CHR ''-'')"
proof -
  have "(to_lower c = CHR ''-'') = ((of_char (to_lower c) :: nat) = of_char CHR ''-'')"
    by (simp only: of_char_eq_iff)
  also have "\<dots> = ((of_char c :: nat) = of_char CHR ''-'')"
    by (simp add: of_char_to_lower)
  also have "\<dots> = (c = CHR ''-'')"
    by (simp only: of_char_eq_iff)
  finally show ?thesis .
qed

lemma is_sep_to_lower: "is_sep (to_lower c) = is_sep c"
  by (simp add: is_sep_def is_space_to_lower hyphen_to_lower)

lemma is_word_not_space: "is_word c \<Longrightarrow> \<not> is_space c"
  unfolding is_word_def is_space_def Let_def by auto

lemma toLowerCase_space_pattern:
  "toLowerCase a = toLowerCase b \<Longrightarrow> map is_space a = map is_space b"
proof -
  assume e: "toLowerCase a = toLowerCase b"
  have "map is_space x = map is_space (toLowerCase x)" for x
    by (simp add: toLowerCase_def is_space_to_lower)
  with e show ?thesis by metis
qed

lemma toLowerCase_sep_pattern:
  "toLowerCase a = toLowerCase b \<Longrightarrow> map is_sep a = map is_sep b"
proof -
  assume e: "toLowerCase a = toLowerCase b"
  have "map is_sep x = map is_sep (toLowerCase x)" for x
    by (simp add: toLowerCase_def is_sep_to_lower)
  with e show ?thesis by metis
qed

lemma map_eq_hd: "map f a = map f b \<Longrightarrow> a \<noteq> [] \<Longrightarrow> f (hd a) = f (hd b)"
  by (cases a; cases b) auto

lemma map_eq_last: "map f a = map f b \<Longrightarrow> a \<noteq> [] \<Longrightarrow> f (last a) = f (last b)"
proof -
  assume e: "map f a = map f b" and ne: "a \<noteq> []"
  then have nb: "b \<noteq> []" by auto
  have "f (last a) = last (map f a)" using ne by (simp add: last_map)
  also have "\<dots> = last (map f b)" using e by simp
  also have "\<dots> = f (last b)" using nb by (simp add: last_map)
  finally show ?thesis .
qed

lemma map_eq_all: "map f a = map f b \<Longrightarrow> list_all (\<lambda>c. \<not> f c) a = list_all (\<lambda>c. \<not> f c) b"
proof -
  assume "map f a = map f b"
  then have "set (map f a) = set (map f b)" by simp
  then show ?thesis by (auto simp: list_all_iff image_iff)
qed

lemma trim_fixed:
  assumes "m \<noteq> []" and "\<not> is_space (hd m)" and "\<not> is_space (last m)"
  shows "trim m = m"
proof -
  have a: "dropWhile is_space m = m" using assms(2) by (intro dropWhile_fixed) simp
  have "hd (rev m) = last m" using assms(1) by (simp add: hd_rev)
  then have "dropWhile is_space (rev m) = rev m" using assms(3) by (intro dropWhile_fixed) simp
  with a show ?thesis by (simp add: trim_def)
qed

lemma split_on_no_sep: "list_all (\<lambda>c. \<not> sep c) s \<Longrightarrow> split_on sep s = [s]"
proof -
  assume "list_all (\<lambda>c. \<not> sep c) s"
  then have "takeWhile (\<lambda>c. \<not> sep c) s = s" "dropWhile (\<lambda>c. \<not> sep c) s = []"
    by (auto simp: list_all_iff)
  then show ?thesis by (subst split_on.simps) (simp add: Let_def)
qed

lemma take_takeWhile_all:
  assumes "k \<le> length (takeWhile P s)"
  shows "list_all P (take k s)"
proof -
  have "take k (takeWhile P s @ dropWhile P s) = take k (takeWhile P s)"
    using assms by (simp del: takeWhile_dropWhile_id)
  then have "take k s = take k (takeWhile P s)" by (simp only: takeWhile_dropWhile_id)
  then have "set (take k s) \<subseteq> set (takeWhile P s)" by (simp add: set_take_subset)
  then show ?thesis by (auto simp: list_all_iff dest: set_takeWhileD)
qed

lemma atom_ends_text:
  assumes "q \<in> set (atom_ends a p)"
  shows "\<exists>k \<le> length (snd p). snd q = drop k (snd p) \<and> atom_text a (take k (snd p))"
proof (cases a)
  case (Plus cl)
  with assms obtain k where k: "q = advance p k" "1 \<le> k"
    "k \<le> length (takeWhile (in_class cl) (snd p))" by auto
  have "length (takeWhile (in_class cl) (snd p)) \<le> length (snd p)" by (rule length_takeWhile_le)
  with k have kl: "k \<le> length (snd p)" by simp
  moreover have "list_all (in_class cl) (take k (snd p))" using k(3) by (rule take_takeWhile_all)
  moreover have "take k (snd p) \<noteq> []" using k(2) kl by auto
  ultimately show ?thesis using k(1) Plus by (auto simp: snd_advance atom_text_def)
next
  case (Star cl)
  with assms obtain k where k: "q = advance p k"
    "k \<le> length (takeWhile (in_class cl) (snd p))" by auto
  have "length (takeWhile (in_class cl) (snd p)) \<le> length (snd p)" by (rule length_takeWhile_le)
  with k have kl: "k \<le> length (snd p)" by simp
  moreover have "list_all (in_class cl) (take k (snd p))" using k(2) by (rule take_takeWhile_all)
  ultimately show ?thesis using k(1) Star by (auto simp: snd_advance atom_text_def)
next
  case (OneOf ws)
  with assms obtain w where w: "w \<in> set ws" "w \<noteq> []"
    "toLowerCase (take (length w) (snd p)) = toLowerCase w" "q = advance p (length w)" by auto
  from w(3) have "length (toLowerCase (take (length w) (snd p))) = length (toLowerCase w)" by simp
  then have "length w \<le> length (snd p)" by (simp add: toLowerCase_def)
  then show ?thesis using w OneOf by (auto simp: snd_advance atom_text_def list_ex_iff)
next
  case (Opt c)
  from assms Opt have "q = p \<or> (\<exists>x xs. snd p = x # xs \<and> to_lower x = to_lower c \<and> q = advance p 1)"
    by (auto split: list.splits if_splits)
  then show ?thesis
  proof
    assume "q = p"
    then have "0 \<le> length (snd p) \<and> snd q = drop 0 (snd p) \<and> atom_text a (take 0 (snd p))"
      using Opt by (simp add: atom_text_def)
    then show ?thesis by blast
  next
    assume "\<exists>x xs. snd p = x # xs \<and> to_lower x = to_lower c \<and> q = advance p 1"
    then obtain x xs where "snd p = x # xs" "to_lower x = to_lower c" "q = advance p 1" by blast
    then have "1 \<le> length (snd p) \<and> snd q = drop 1 (snd p) \<and> atom_text a (take 1 (snd p))"
      using Opt by (simp add: atom_text_def snd_advance)
    then show ?thesis by blast
  qed
next
  case WordB
  with assms have "0 \<le> length (snd p) \<and> snd q = drop 0 (snd p) \<and> atom_text a (take 0 (snd p))"
    by (auto simp: atom_text_def split: if_splits)
  then show ?thesis by blast
next
  case Eoi
  with assms have "0 \<le> length (snd p) \<and> snd q = drop 0 (snd p) \<and> atom_text a (take 0 (snd p))"
    by (auto simp: atom_text_def split: if_splits)
  then show ?thesis by blast
qed

lemma rx_match_text:
  "rx_match re p = Some r \<Longrightarrow>
     \<exists>k \<le> length (snd p). snd r = drop k (snd p) \<and> rx_text re (take k (snd p))"
proof (induction re arbitrary: p)
  case Nil
  then have "0 \<le> length (snd p) \<and> snd r = drop 0 (snd p) \<and> rx_text [] (take 0 (snd p))" by simp
  then show ?case by blast
next
  case (Cons a as)
  from rx_match_step[OF Cons.prems] obtain q where
    q: "q \<in> set (atom_ends a p)" "rx_match as q = Some r" by blast
  from atom_ends_text[OF q(1)] obtain k1 where
    k1: "k1 \<le> length (snd p)" "snd q = drop k1 (snd p)" "atom_text a (take k1 (snd p))" by blast
  from Cons.IH[OF q(2)] obtain k2 where
    k2: "k2 \<le> length (snd q)" "snd r = drop k2 (snd q)" "rx_text as (take k2 (snd q))" by blast
  let ?m = "take (k1 + k2) (snd p)"
  have l: "k1 + k2 \<le> length (snd p)" using k1 k2 by simp
  have "k1 \<le> length ?m" using l by simp
  moreover have "take k1 ?m = take k1 (snd p)" by (simp add: min_def)
  moreover have "drop k1 ?m = take k2 (snd q)" by (simp add: k1(2) drop_take)
  ultimately have "rx_text (a # as) ?m" using k1(3) k2(3) by auto
  moreover have "snd r = drop (k1 + k2) (snd p)" using k1(2) k2(2) by (simp add: add.commute)
  ultimately show ?case using l by blast
qed

lemma match_all_text: "m \<in> set (match_all re p) \<Longrightarrow> m = [] \<or> rx_text re m"
proof (induction re p rule: match_all.induct)
  case (1 re p)
  show ?case
  proof (cases "rx_match re p")
    case None
    show ?thesis
    proof (cases "snd p")
      case Nil
      with None "1.prems" show ?thesis by (subst (asm) match_all.simps) simp
    next
      case (Cons c cs)
      with None "1.prems" have "m \<in> set (match_all re (Some c, cs))"
        by (subst (asm) match_all.simps) simp
      then show ?thesis using "1.IH"(1)[OF None Cons] by blast
    qed
  next
    case (Some r)
    from rx_match_text[OF Some] obtain k where
      k: "k \<le> length (snd p)" "snd r = drop k (snd p)" "rx_text re (take k (snd p))" by blast
    show ?thesis
    proof (cases "length (snd r) < length (snd p)")
      case True
      from k have "length (snd p) - length (snd r) = k" by simp
      with Some True "1.prems" have "m = take k (snd p) \<or> m \<in> set (match_all re r)"
        by (subst (asm) match_all.simps) auto
      then show ?thesis using k(3) "1.IH"(2)[OF Some True] by blast
    next
      case False
      show ?thesis
      proof (cases "snd p")
        case Nil
        with Some False "1.prems" show ?thesis by (subst (asm) match_all.simps) simp
      next
        case (Cons c cs)
        with Some False "1.prems" have "m = [] \<or> m \<in> set (match_all re (Some c, cs))"
          by (subst (asm) match_all.simps) simp
        then show ?thesis using "1.IH"(3)[OF Some False Cons] by blast
      qed
    qed
  qed
qed

lemma set_uniq: "set (uniq xs) = set xs"
  by (induction xs rule: uniq.induct) auto

lemma js_match_text:
  "js_match s re = Some ms \<Longrightarrow> m \<in> set ms \<Longrightarrow> m = [] \<or> rx_text re m"
proof -
  assume a: "js_match s re = Some ms" and m: "m \<in> set ms"
  from a have "ms = match_all re (None, s)"
    by (cases "match_all re (None, s)") (auto simp: js_match_def)
  with m show ?thesis using match_all_text[of m re "(None, s)"] by simp
qed

lemma extractLocationTerms_text:
  assumes "t \<in> set (extractLocationTerms s)"
  shows "\<exists>re \<in> set locationPatterns. \<exists>m. (m = [] \<or> rx_text re m) \<and> t = trim m"
proof -
  have step: "\<exists>re \<in> set (rs @ qs). \<exists>m. (m = [] \<or> rx_text re m) \<and> t = trim m"
    if "t \<in> set (fold (\<lambda>pattern acc.
            case js_match name pattern of None \<Rightarrow> acc | Some matches \<Rightarrow> acc @ map trim matches)
            rs acc)"
      and "t \<in> set acc \<Longrightarrow> \<exists>re \<in> set qs. \<exists>m. (m = [] \<or> rx_text re m) \<and> t = trim m"
    for rs qs acc name
    using that
  proof (induction rs arbitrary: acc qs)
    case Nil
    then show ?case by simp
  next
    case (Cons r rs)
    let ?acc = "case js_match name r of None \<Rightarrow> acc | Some matches \<Rightarrow> acc @ map trim matches"
    have "\<exists>re \<in> set (rs @ (r # qs)). \<exists>m. (m = [] \<or> rx_text re m) \<and> t = trim m"
    proof (rule Cons.IH[of ?acc "r # qs"])
      show "t \<in> set (fold (\<lambda>pattern acc.
            case js_match name pattern of None \<Rightarrow> acc | Some matches \<Rightarrow> acc @ map trim matches)
            rs ?acc)" using Cons.prems(1) by simp
    next
      assume ta: "t \<in> set ?acc"
      show "\<exists>re \<in> set (r # qs). \<exists>m. (m = [] \<or> rx_text re m) \<and> t = trim m"
      proof (cases "t \<in> set acc")
        case True
        from Cons.prems(2)[OF True] show ?thesis by auto
      next
        case False
        with ta obtain ms x where ms: "js_match name r = Some ms" "x \<in> set ms" "t = trim x"
          by (cases "js_match name r") auto
        from js_match_text[OF ms(1,2)] ms(3)
        have "\<exists>m. (m = [] \<or> rx_text r m) \<and> t = trim m" by blast
        then show ?thesis by auto
      qed
    qed
    then show ?case by auto
  qed
  from assms have "t \<in> set (fold (\<lambda>pattern acc.
            case js_match (toLowerCase s) pattern of None \<Rightarrow> acc
            | Some matches \<Rightarrow> acc @ map trim matches) locationPatterns [])"
    by (simp add: extractLocationTerms_def Let_def set_uniq)
  from step[OF this, of "[]"] show ?thesis by simp
qed

lemma rx_text_Cons:
  "rx_text (a # as) m = (\<exists>m1 m2. m = m1 @ m2 \<and> atom_text a m1 \<and> rx_text as m2)"
proof
  assume "rx_text (a # as) m"
  then obtain k where "atom_text a (take k m)" "rx_text as (drop k m)" by auto
  moreover have "m = take k m @ drop k m" by simp
  ultimately show "\<exists>m1 m2. m = m1 @ m2 \<and> atom_text a m1 \<and> rx_text as m2" by blast
next
  assume "\<exists>m1 m2. m = m1 @ m2 \<and> atom_text a m1 \<and> rx_text as m2"
  then obtain m1 m2 where "m = m1 @ m2" "atom_text a m1" "rx_text as m2" by blast
  then have "length m1 \<le> length m \<and> atom_text a (take (length m1) m) \<and>
      rx_text as (drop (length m1) m)" by simp
  then show "rx_text (a # as) m" by auto
qed

lemma word_lists:
  "list_all (\<lambda>w. \<not> is_space (hd w) \<and> \<not> is_space (last w) \<and> ok_term w) gazetteer"
  "list_all (\<lambda>w. \<not> is_space (last w) \<and> length w \<ge> 3) roadwords"
  "list_all (\<lambda>w. \<not> is_space (hd w) \<and> length w \<ge> 3) [''old'', ''new'']"
  by code_simp+

lemma ok_gazetteer:
  assumes "rx_text [WordB, OneOf gazetteer, WordB] m"
  shows "ok_term (trim m)"
proof -
  from assms[unfolded rx_text_Cons rx_text.simps(1)] obtain w where
    w: "w \<in> set gazetteer" "w \<noteq> []" "toLowerCase m = toLowerCase w"
    by (auto simp: atom_text_def list_ex_iff)
  from w(1) word_lists(1) have g: "\<not> is_space (hd w)" "\<not> is_space (last w)" "ok_term w"
    by (auto simp: list_all_iff)
  from w(3) have "length (toLowerCase m) = length (toLowerCase w)" by simp
  then have l: "length m = length w" by (simp add: toLowerCase_def)
  with w(2) have ne: "m \<noteq> []" by auto
  note sp = toLowerCase_space_pattern[OF w(3)] and se = toLowerCase_sep_pattern[OF w(3)]
  have "trim m = m"
    using ne g map_eq_hd[OF sp ne] map_eq_last[OF sp ne] by (intro trim_fixed) auto
  moreover have "ok_term m"
    using g(3) l map_eq_all[OF se] by (simp add: ok_term_def)
  ultimately show ?thesis by simp
qed

lemma ok_road:
  assumes "rx_text [WordB, Plus CWord, Plus CSpace, OneOf roadwords, WordB] m"
  shows "ok_term (trim m)"
proof -
  from assms[unfolded rx_text_Cons rx_text.simps(1)] obtain a b c w where
    m: "m = a @ b @ c" and a: "a \<noteq> []" "list_all (in_class CWord) a" and b: "b \<noteq> []"
    and w: "w \<in> set roadwords" "w \<noteq> []" "toLowerCase c = toLowerCase w"
    by (auto simp: atom_text_def list_ex_iff)
  from w(1) word_lists(2) have g: "\<not> is_space (last w)" "length w \<ge> 3"
    by (auto simp: list_all_iff)
  from w(3) have "length (toLowerCase c) = length (toLowerCase w)" by simp
  then have l: "length c = length w" by (simp add: toLowerCase_def)
  with w(2) have ne: "c \<noteq> []" by auto
  note sp = toLowerCase_space_pattern[OF w(3)]
  have "is_word (hd a)" using a by (cases a) auto
  then have h: "\<not> is_space (hd m)" using a(1) m by (simp add: is_word_not_space)
  have "last m = last c" using ne m by simp
  then have la: "\<not> is_space (last m)" using g(1) map_eq_last[OF sp ne] by simp
  have "trim m = m" using h la m a(1) by (intro trim_fixed) auto
  moreover have "length m > 4" using m a(1) b l g(2)
    by (cases a; cases b) auto
  ultimately show ?thesis by (simp add: ok_term_def)
qed

lemma ok_old_new:
  assumes "rx_text [WordB, OneOf [''old'', ''new''], Plus CSpace, Plus CWord, WordB] m"
  shows "ok_term (trim m)"
proof -
  from assms[unfolded rx_text_Cons rx_text.simps(1)] obtain c b a w where
    m: "m = c @ b @ a" and a: "a \<noteq> []" "list_all (in_class CWord) a" and b: "b \<noteq> []"
    and w: "w \<in> set [''old'', ''new'']" "w \<noteq> []" "toLowerCase c = toLowerCase w"
    by (auto simp: atom_text_def list_ex_iff)
  from w(1) word_lists(3) have g: "\<not> is_space (hd w)" "length w \<ge> 3"
    by (auto simp: list_all_iff)
  from w(3) have "length (toLowerCase c) = length (toLowerCase w)" by simp
  then have l: "length c = length w" by (simp add: toLowerCase_def)
  with w(2) have ne: "c \<noteq> []" by auto
  note sp = toLowerCase_space_pattern[OF w(3)]
  have "hd m = hd c" using ne m by simp
  then have h: "\<not> is_space (hd m)" using g(1) map_eq_hd[OF sp ne] by simp
  have "last a \<in> set a" using a(1) by simp
  then have "is_word (last a)" using a(2) by (auto simp: list_all_iff)
  moreover have "last m = last a" using a(1) m by simp
  ultimately have la: "\<not> is_space (last m)" by (simp add: is_word_not_space)
  have "trim m = m" using h la m a(1) by (intro trim_fixed) auto
  moreover have "length m > 4" using m a(1) b l g(2)
    by (cases a; cases b) auto
  ultimately show ?thesis by (simp add: ok_term_def)
qed

lemma extractLocationTerms_ok:
  assumes "t \<in> set (extractLocationTerms s)"
  shows "ok_term t"
proof -
  from extractLocationTerms_text[OF assms] obtain re m where
    re: "re \<in> set locationPatterns" and m: "m = [] \<or> rx_text re m" and t: "t = trim m" by blast
  show ?thesis
  proof (cases "m = []")
    case True
    then show ?thesis using t by (simp add: trim_def ok_term_def)
  next
    case False
    with m have "rx_text re m" by simp
    with re show ?thesis unfolding t
      by (auto simp: locationPatterns_def intro: ok_gazetteer ok_road ok_old_new)
  qed
qed

lemma claimed_credit_eq:
  assumes "ok_term t"
  shows "(if found (toLowerCase t) then 1
          else if length (toLowerCase t) > 4 \<and>
                  (\<exists>part \<in> set (split_on (\<lambda>c. is_space c \<or> c = CHR ''-'') (toLowerCase t)).
                      length part \<ge> 3 \<and> found part)
          then 1 / 2 else (0 :: rat)) =
         (if found (toLowerCase t) then 1
          else if list_ex (\<lambda>part. length part \<ge> 3 \<and> found part)
                    (split_on (\<lambda>c. is_space c \<or> c = CHR ''-'') (toLowerCase t))
          then 1 / 2 else 0)"
proof (cases "length t > 4")
  case True
  then show ?thesis by (simp add: toLowerCase_def list_ex_iff)
next
  case False
  with assms have "list_all (\<lambda>c. \<not> is_sep c) t" by (simp add: ok_term_def)
  then have "list_all (\<lambda>c. \<not> is_sep c) (toLowerCase t)"
    by (simp add: toLowerCase_def list_all_iff is_sep_to_lower)
  then have "list_all (\<lambda>c. \<not> (is_space c \<or> c = CHR ''-'')) (toLowerCase t)"
    by (simp add: is_sep_def)
  then have "split_on (\<lambda>c. is_space c \<or> c = CHR ''-'') (toLowerCase t) = [toLowerCase t]"
    by (rule split_on_no_sep)
  then show ?thesis using False by (simp add: toLowerCase_def)
qed

text \<open>
  Claim C6: for the location terms extracted from any hospital name and every
  candidate payload, the location score is as specified: a term found in the
  candidate's address or name earns full credit, any other term earns 0.5 when one
  of its parts of length at least 3 is found there, the credits are summed, divided
  by the number of terms and clamped to 1 (then weighted by 0.35), and the score is
  0 when no location term was extracted.
\<close>

theorem locationScore_as_specified:
  "locationScore (calculateEnhancedSimilarity originalQuery mainName
       (extractLocationTerms hospitalName) pl) =
     claimed_locationScore (extractLocationTerms hospitalName) pl * (35 / 100)"
proof -
  let ?ts = "extractLocationTerms hospitalName"
  have "map f ?ts = map g ?ts" if "\<And>t. ok_term t \<Longrightarrow> f t = g t" for f g :: "string \<Rightarrow> rat"
    using that extractLocationTerms_ok[of _ hospitalName] by (intro map_cong) auto
  note eq = this[OF claimed_credit_eq]
  show ?thesis
    unfolding locationScore_credits claimed_locationScore_def Let_def
    by (subst eq) auto
qed

theorem locationScore_as_specified_witness:
  "locationScore (calculateEnhancedSimilarity ''Fortis Old Airport Road'' ''fortis''
      (extractLocationTerms ''Fortis Old Airport Road'')
      (Some \<lparr> p_name = Some ''Fortis Hospital'', p_address = Some ''12 Airport Rd, Sarjapur'',
               p_city = Some ''Bengaluru'', p_unique_key = None \<rparr>)) = 7 / 40"
  by (rule trans [OF locationScore_as_specified]) code_simp

end
